theory Spec2Isabelle
  imports Main "HOL-Library.AList"
begin

section \<open>Python values\<close>

text \<open>
  Nodes are the tokens the command shell passes on (\<^verbatim>\<open>str\<close>); a path is a Python
  list of nodes. A Python \<^verbatim>\<open>dict\<close> keeps its keys in insertion order and several
  loops of the controller iterate over one, so a dict is an association list:
  \<^verbatim>\<open>d.get(k)\<close> is \<open>map_of d k\<close>, \<^verbatim>\<open>d[k] = v\<close> is \<open>AList.update k v d\<close> (the value is
  replaced in place, a new key goes to the end) and \<^verbatim>\<open>d.pop(k, None)\<close> is
  \<open>AList.delete k d\<close>.
\<close>

type_synonym node = string
type_synonym path = "node list"
type_synonym ('k, 'v) dict = "('k \<times> 'v) list"

text \<open>
  The exceptions that can leave a method of the controller. Python mutates the
  controller in place, so a raised exception leaves behind the state reached so far:
  \<open>Raised e s\<close> carries it.
\<close>

datatype py_error =
    KeyError | ValueError | ZeroDivisionError | UnboundLocalError
  | NetworkXNoPath | NodeNotFound

datatype 'a result = Done 'a | Raised py_error 'a

fun state_of :: "'a result \<Rightarrow> 'a" where
  "state_of (Done s) = s"
| "state_of (Raised e s) = s"

fun is_done :: "'a result \<Rightarrow> bool" where
  "is_done (Done s) = True"
| "is_done (Raised e s) = False"

text \<open>\<^verbatim>\<open>str.lower()\<close> on the ASCII letters (the three keys of the priority map are ASCII).\<close>

definition lower_char :: "char \<Rightarrow> char" where
  "lower_char c =
     (let n = (of_char c :: nat) in if 65 \<le> n \<and> n \<le> 90 then char_of (n + 32) else c)"

definition lower :: "string \<Rightarrow> string" where
  "lower s = map lower_char s"

section \<open>The topology: \<^verbatim>\<open>networkx.Graph\<close>\<close>

text \<open>
  \<^verbatim>\<open>nx.Graph\<close> keeps \<^verbatim>\<open>_adj\<close>, a dict from each node to the dict of its neighbours,
  each neighbour with the edge's attribute dict. The controller creates edges only in
  \<^verbatim>\<open>add_link\<close>, always with the attributes \<^verbatim>\<open>weight\<close> and \<^verbatim>\<open>capacity\<close>, so the
  attribute dict is a record of the two. The nodes of the graph, in the order
  \<^verbatim>\<open>topology.nodes\<close> iterates them, are the keys of \<^verbatim>\<open>_adj\<close>.
\<close>

record edge_attr =
  weight :: int
  capacity :: int

type_synonym graph = "(node, (node, edge_attr) dict) dict"

definition nodes :: "graph \<Rightarrow> node list" where
  "nodes G = map fst G"

text \<open>\<^verbatim>\<open>G[u]\<close>, the neighbours of a node, in insertion order.\<close>

definition adj :: "graph \<Rightarrow> node \<Rightarrow> (node, edge_attr) dict" where
  "adj G u = (case map_of G u of None \<Rightarrow> [] | Some nb \<Rightarrow> nb)"

definition g_add_node :: "node \<Rightarrow> graph \<Rightarrow> graph" where
  "g_add_node n G = (case map_of G n of None \<Rightarrow> G @ [(n, [])] | Some nb \<Rightarrow> G)"

definition set_adj :: "node \<Rightarrow> node \<Rightarrow> edge_attr \<Rightarrow> graph \<Rightarrow> graph" where
  "set_adj u v d G = AList.update u (AList.update v d (adj G u)) G"

definition g_add_edge :: "node \<Rightarrow> node \<Rightarrow> int \<Rightarrow> int \<Rightarrow> graph \<Rightarrow> graph" where
  "g_add_edge u v w c G =
     (let G1 = g_add_node v (g_add_node u G);
          d = \<lparr>weight = w, capacity = c\<rparr>
      in set_adj v u d (set_adj u v d G1))"

definition has_edge :: "graph \<Rightarrow> node \<Rightarrow> node \<Rightarrow> bool" where
  "has_edge G u v = (case map_of G u of None \<Rightarrow> False | Some nb \<Rightarrow> map_of nb v \<noteq> None)"

definition del_adj :: "node \<Rightarrow> node \<Rightarrow> graph \<Rightarrow> graph" where
  "del_adj u v G = AList.update u (AList.delete v (adj G u)) G"

text \<open>\<^verbatim>\<open>remove_edge\<close> is only called after \<^verbatim>\<open>has_edge\<close> said yes, so it never raises.\<close>

definition g_remove_edge :: "node \<Rightarrow> node \<Rightarrow> graph \<Rightarrow> graph" where
  "g_remove_edge u v G = (if u \<noteq> v then del_adj v u (del_adj u v G) else del_adj u v G)"

section \<open>The controller state\<close>

record traffic_info =
  ttype :: string
  priority :: int

text \<open>What the controller prints, line by line.\<close>

datatype report =
    AddedNode node
  | Routing string node node path
  | NoAvailablePath node node
  | NoRoutingInfo node node
  | Rerouted node node path
  | NoBackup node node
  | UtilHeader
  | LinkUsage node node int int

text \<open>
  The fields of \<^verbatim>\<open>SDNController\<close>, and \<open>printed\<close>: the lines written to standard
  output so far. A flow-table entry is a path or Python's \<^verbatim>\<open>None\<close>.
\<close>

record sdn =
  topology :: graph
  flow_tables :: "(node, (node, path option) dict) dict"
  traffic :: "(node \<times> node, traffic_info) dict"
  link_utilization :: "(node \<times> node, int) dict"
  backup_paths :: "(node \<times> node, path list) dict"
  printed :: "report list"

definition priority_map :: "(string, int) dict" where
  "priority_map = [(''critical'', 3), (''important'', 2), (''default'', 1)]"

definition init :: sdn where
  "init = \<lparr>topology = [], flow_tables = [], traffic = [], link_utilization = [],
            backup_paths = [], printed = []\<rparr>"

definition say :: "report \<Rightarrow> sdn \<Rightarrow> sdn" where
  "say r s = s\<lparr>printed := printed s @ [r]\<rparr>"

subsection \<open>\<^verbatim>\<open>add_node\<close>, \<^verbatim>\<open>add_link\<close>\<close>

definition add_node1 :: "node \<Rightarrow> sdn \<Rightarrow> sdn" where
  "add_node1 n s =
     say (AddedNode n)
       (s\<lparr>topology := g_add_node n (topology s),
          flow_tables := AList.update n [] (flow_tables s)\<rparr>)"

definition add_node :: "node list \<Rightarrow> sdn \<Rightarrow> sdn" where
  "add_node ns s = fold add_node1 ns s"

definition add_link :: "node \<Rightarrow> node \<Rightarrow> int \<Rightarrow> int \<Rightarrow> sdn \<Rightarrow> sdn" where
  "add_link u v w c s =
     s\<lparr>topology := g_add_edge u v w c (topology s),
       link_utilization :=
         AList.update (v, u) 0 (AList.update (u, v) 0 (link_utilization s))\<rparr>"

subsection \<open>Utilization accounting\<close>

text \<open>
  \<^verbatim>\<open>self.link_utilization[(a, b)] += 1\<close> reads the counter first and raises
  \<^verbatim>\<open>KeyError\<close> when there is none.
\<close>

definition bump :: "node \<Rightarrow> node \<Rightarrow> (node \<times> node, int) dict \<Rightarrow> (node \<times> node, int) dict result" where
  "bump a b lu =
     (case map_of lu (a, b) of
        None \<Rightarrow> Raised KeyError lu
      | Some n \<Rightarrow> Done (AList.update (a, b) (n + 1) lu))"

text \<open>
  The loop \<^verbatim>\<open>for i in range(len(path) - 1)\<close> of \<^verbatim>\<open>inject_flow\<close> and of
  \<^verbatim>\<open>_handle_link_failure\<close>: both directed counters of every consecutive pair.
\<close>

fun count_path :: "path \<Rightarrow> (node \<times> node, int) dict \<Rightarrow> (node \<times> node, int) dict result" where
  "count_path (a # b # rest) lu =
     (case bump a b lu of
        Raised e lu1 \<Rightarrow> Raised e lu1
      | Done lu1 \<Rightarrow>
          (case bump b a lu1 of
             Raised e lu2 \<Rightarrow> Raised e lu2
           | Done lu2 \<Rightarrow> count_path (b # rest) lu2))"
| "count_path p lu = Done lu"

definition count_flow :: "path \<Rightarrow> sdn \<Rightarrow> sdn result" where
  "count_flow p s =
     (case count_path p (link_utilization s) of
        Done lu \<Rightarrow> Done (s\<lparr>link_utilization := lu\<rparr>)
      | Raised e lu \<Rightarrow> Raised e (s\<lparr>link_utilization := lu\<rparr>))"

subsection \<open>\<^verbatim>\<open>inject_flow\<close>\<close>

text \<open>\<^verbatim>\<open>self.flow_tables.get(src, {})\<close> and the lookup of \<^verbatim>\<open>dst\<close> in it.\<close>

definition flow_entry :: "sdn \<Rightarrow> node \<Rightarrow> node \<Rightarrow> path option option" where
  "flow_entry s src dst =
     map_of (case map_of (flow_tables s) src of None \<Rightarrow> [] | Some t \<Rightarrow> t) dst"

text \<open>\<^verbatim>\<open>self.priority_map.get(traffic_type.lower(), 1)\<close>\<close>

definition priority_of :: "string \<Rightarrow> int" where
  "priority_of traffic_type =
     (case map_of priority_map (lower traffic_type) of None \<Rightarrow> 1 | Some p \<Rightarrow> p)"

definition inject_flow :: "node \<Rightarrow> node \<Rightarrow> string \<Rightarrow> sdn \<Rightarrow> sdn result" where
  "inject_flow src dst traffic_type s =
     (let s1 = s\<lparr>traffic :=
                   AList.update (src, dst)
                     \<lparr>ttype = traffic_type, priority = priority_of traffic_type\<rparr> (traffic s)\<rparr>
      in case flow_entry s1 src dst of
           None \<Rightarrow> Done (say (NoRoutingInfo src dst) s1)
         | Some None \<Rightarrow> Done (say (NoAvailablePath src dst) s1)
         | Some (Some []) \<Rightarrow> Done (say (NoAvailablePath src dst) s1)
         | Some (Some (x # xs)) \<Rightarrow>
             count_flow (x # xs) (say (Routing traffic_type src dst (x # xs)) s1))"

subsection \<open>\<^verbatim>\<open>remove_link\<close> and \<^verbatim>\<open>_handle_link_failure\<close>\<close>

text \<open>Whether a path steps over the link between \<open>u\<close> and \<open>v\<close>, in either direction.\<close>

definition uses_link :: "node \<Rightarrow> node \<Rightarrow> path \<Rightarrow> bool" where
  "uses_link u v p = list_ex (\<lambda>e. (u, v) = e \<or> (v, u) = e) (zip p (tl p))"

definition affected :: "node \<Rightarrow> node \<Rightarrow> path option \<Rightarrow> bool" where
  "affected u v entry = (case entry of None \<Rightarrow> False | Some p \<Rightarrow> p \<noteq> [] \<and> uses_link u v p)"

text \<open>The first loop: the pairs whose installed path steps over the link.\<close>

definition affected_flows :: "node \<Rightarrow> node \<Rightarrow> sdn \<Rightarrow> (node \<times> node) list" where
  "affected_flows u v s =
     concat (map (\<lambda>src. map (\<lambda>(dst, entry). (src, dst))
                           (filter (\<lambda>(dst, entry). affected u v entry)
                              (case map_of (flow_tables s) src of None \<Rightarrow> [] | Some t \<Rightarrow> t)))
                 (map fst (flow_tables s)))"

text \<open>\<^verbatim>\<open>self.flow_tables[src][dst] = entry\<close>: \<^verbatim>\<open>KeyError\<close> when \<open>src\<close> owns no table.\<close>

definition set_flow :: "node \<Rightarrow> node \<Rightarrow> path option \<Rightarrow> sdn \<Rightarrow> sdn result" where
  "set_flow src dst entry s =
     (case map_of (flow_tables s) src of
        None \<Rightarrow> Raised KeyError s
      | Some t \<Rightarrow> Done (s\<lparr>flow_tables := AList.update src (AList.update dst entry t) (flow_tables s)\<rparr>))"

text \<open>The body of the second loop, for one affected pair.\<close>

definition reroute :: "node \<times> node \<Rightarrow> sdn \<Rightarrow> sdn result" where
  "reroute sd s =
     (case sd of (src, dst) \<Rightarrow>
        (case map_of (backup_paths s) (src, dst) of
           Some (backup # rest) \<Rightarrow>
             (case set_flow src dst (Some backup)
                     (s\<lparr>backup_paths := AList.update (src, dst) rest (backup_paths s)\<rparr>) of
                Raised e s1 \<Rightarrow> Raised e s1
              | Done s1 \<Rightarrow> count_flow backup (say (Rerouted src dst backup) s1))
         | _ \<Rightarrow> set_flow src dst None (say (NoBackup src dst) s)))"

text \<open>A \<^verbatim>\<open>for\<close> loop whose body may raise: the exception ends the loop.\<close>

fun for_each :: "('a \<Rightarrow> 's \<Rightarrow> 's result) \<Rightarrow> 'a list \<Rightarrow> 's \<Rightarrow> 's result" where
  "for_each f [] s = Done s"
| "for_each f (x # xs) s =
     (case f x s of Raised e s1 \<Rightarrow> Raised e s1 | Done s1 \<Rightarrow> for_each f xs s1)"

definition handle_link_failure :: "node \<Rightarrow> node \<Rightarrow> sdn \<Rightarrow> sdn result" where
  "handle_link_failure u v s = for_each reroute (affected_flows u v s) s"

definition remove_link :: "node \<Rightarrow> node \<Rightarrow> sdn \<Rightarrow> sdn result" where
  "remove_link u v s =
     (if has_edge (topology s) u v
      then handle_link_failure u v
             (s\<lparr>topology := g_remove_edge u v (topology s),
                link_utilization :=
                  AList.delete (v, u) (AList.delete (u, v) (link_utilization s))\<rparr>)
      else Done s)"

section \<open>\<^verbatim>\<open>networkx.all_simple_paths\<close>\<close>

text \<open>
  The generator walks depth first from the source, trying the neighbours of the last
  node in the order of its adjacency dict and skipping every node already on the
  current path. It yields the current path extended by the target whenever the target
  comes up, never goes on through the target, and goes deeper only while the current
  path has fewer than \<open>cutoff\<close> nodes. \<open>visited\<close> is the current path, \<open>children\<close> the
  neighbours of its last node that are still to be tried.
\<close>

function dfs :: "graph \<Rightarrow> node \<Rightarrow> nat \<Rightarrow> node list \<Rightarrow> node list \<Rightarrow> path list" where
  "dfs G target cutoff visited [] = []"
| "dfs G target cutoff visited (child # children) =
     (if child \<in> set visited then []
      else if child = target then [visited @ [child]]
      else if length visited < cutoff
        then dfs G target cutoff (visited @ [child]) (map fst (adj G child))
      else [])
     @ dfs G target cutoff visited children"
  by pat_completeness auto
termination
  by (relation "measures [\<lambda>(G, t, c, vis, ch). c - length vis, \<lambda>(G, t, c, vis, ch). length ch]")
     auto

text \<open>
  \<^verbatim>\<open>all_simple_paths(G, source, target)\<close> with the default \<^verbatim>\<open>cutoff = len(G) - 1\<close>.
  The controller calls it for two different nodes of the graph only.
\<close>

definition all_simple_paths :: "graph \<Rightarrow> node \<Rightarrow> node \<Rightarrow> path list" where
  "all_simple_paths G source target =
     (if source = target \<or> length G - 1 < 1 then []
      else dfs G target (length G - 1) [source] (map fst (adj G source)))"

section \<open>\<^verbatim>\<open>_select_load_balanced_path\<close>\<close>

definition counter :: "(node \<times> node, int) dict \<Rightarrow> node \<times> node \<Rightarrow> int" where
  "counter lu e = (case map_of lu e of None \<Rightarrow> 0 | Some n \<Rightarrow> n)"

definition path_util :: "(node \<times> node, int) dict \<Rightarrow> path \<Rightarrow> int" where
  "path_util lu p = sum_list (map (counter lu) (zip p (tl p)))"

text \<open>
  Python's \<^verbatim>\<open>min(xs, key=...)\<close> keeps the element it holds unless a later one has a
  strictly smaller key, and raises \<^verbatim>\<open>ValueError\<close> on an empty sequence.
\<close>

fun min_from :: "('a \<Rightarrow> int) \<Rightarrow> 'a \<Rightarrow> 'a list \<Rightarrow> 'a" where
  "min_from key best [] = best"
| "min_from key best (x # xs) = (if key x < key best then min_from key x xs else min_from key best xs)"

definition select_load_balanced_path ::
  "(node \<times> node, int) dict \<Rightarrow> path list \<Rightarrow> py_error + path" where
  "select_load_balanced_path lu ps =
     (case map (\<lambda>p. (path_util lu p, p)) ps of
        [] \<Rightarrow> Inl ValueError
      | x # xs \<Rightarrow> Inr (snd (min_from fst x xs)))"

section \<open>\<^verbatim>\<open>networkx.shortest_path\<close>: bidirectional Dijkstra\<close>

text \<open>
  With a source, a target and a weight, \<^verbatim>\<open>shortest_path\<close> returns the path of
  \<^verbatim>\<open>bidirectional_dijkstra\<close>. One search grows from the source and one from the
  target; each has its dict of final distances, of paths, of distances seen, and its
  heap of \<^verbatim>\<open>(distance, count, node)\<close> entries. The dicts are never iterated, so they
  are maps.
\<close>

type_synonym entry = "int \<times> nat \<times> node"

record side =
  dists :: "node \<rightharpoonup> int"
  paths :: "node \<rightharpoonup> path"
  fringe :: "entry list"
  seen :: "node \<rightharpoonup> int"

text \<open>
  \<open>backward\<close> is \<^verbatim>\<open>dir == 1\<close>; \<open>final\<close> is \<^verbatim>\<open>(finaldist, finalpath)\<close>, \<open>None\<close> while
  \<^verbatim>\<open>finalpath == []\<close> and \<^verbatim>\<open>finaldist\<close> is not yet bound; \<open>cnt\<close> is the next value
  of \<^verbatim>\<open>count()\<close>.
\<close>

record bidi =
  fwd :: side
  bwd :: side
  cnt :: nat
  final :: "(int \<times> path) option"
  backward :: bool

definition this_side :: "bidi \<Rightarrow> side" where
  "this_side st = (if backward st then bwd st else fwd st)"

definition other_side :: "bidi \<Rightarrow> side" where
  "other_side st = (if backward st then fwd st else bwd st)"

definition put_side :: "side \<Rightarrow> bidi \<Rightarrow> bidi" where
  "put_side sd st = (if backward st then st\<lparr>bwd := sd\<rparr> else st\<lparr>fwd := sd\<rparr>)"

text \<open>
  The heap holds tuples that Python compares by distance, then by count; counts are
  all different, so \<^verbatim>\<open>heappop\<close> returns the one least entry and nodes are never
  compared.
\<close>

definition entry_less :: "entry \<Rightarrow> entry \<Rightarrow> bool" where
  "entry_less a b = (fst a < fst b \<or> (fst a = fst b \<and> fst (snd a) < fst (snd b)))"

fun least :: "entry \<Rightarrow> entry list \<Rightarrow> entry" where
  "least m [] = m"
| "least m (x # xs) = (if entry_less x m then least x xs else least m xs)"

definition heappop :: "entry list \<Rightarrow> entry \<times> entry list" where
  "heappop h = (let m = least (hd h) (tl h) in (m, remove1 m h))"

definition heappush :: "entry list \<Rightarrow> entry \<Rightarrow> entry list" where
  "heappush h e = h @ [e]"

text \<open>
  One round of the loop over the neighbours \<open>w\<close> of the node \<open>v\<close> just settled.
  \<open>record_seen\<close> is the relaxing branch: the new distance seen, the heap entry and the
  path of \<open>w\<close>. \<open>meet\<close> is the test that follows it: when \<open>w\<close> has been seen from both
  ends, the path through \<open>w\<close> replaces the best path found so far if it is shorter.
\<close>

definition record_seen :: "node \<Rightarrow> int \<Rightarrow> path \<Rightarrow> bidi \<Rightarrow> bidi" where
  "record_seen w vwLength p st =
     (put_side ((this_side st)
                  \<lparr>paths := (paths (this_side st))(w \<mapsto> p),
                   fringe := heappush (fringe (this_side st)) (vwLength, cnt st, w),
                   seen := (seen (this_side st))(w \<mapsto> vwLength)\<rparr>) st)
       \<lparr>cnt := cnt st + 1\<rparr>"

definition meet :: "node \<Rightarrow> bidi \<Rightarrow> py_error + bidi" where
  "meet w st =
     (case (seen (fwd st) w, seen (bwd st) w) of
        (Some s0, Some s1) \<Rightarrow>
          (if (case final st of None \<Rightarrow> True | Some (fd, fp) \<Rightarrow> fd > s0 + s1)
           then
             (case (paths (fwd st) w, paths (bwd st) w) of
                (Some p0, Some p1) \<Rightarrow> Inr (st\<lparr>final := Some (s0 + s1, p0 @ tl (rev p1))\<rparr>)
              | _ \<Rightarrow> Inl KeyError)
           else Inr st)
      | _ \<Rightarrow> Inr st)"

definition relax :: "node \<Rightarrow> node \<times> edge_attr \<Rightarrow> bidi \<Rightarrow> py_error + bidi" where
  "relax v wd st =
     (case wd of (w, d) \<Rightarrow>
      (case dists (this_side st) v of
         None \<Rightarrow> Inl KeyError
       | Some dv \<Rightarrow>
          (let vwLength = dv + weight d in
           case dists (this_side st) w of
             Some dw \<Rightarrow> if vwLength < dw then Inl ValueError else Inr st
           | None \<Rightarrow>
              if (case seen (this_side st) w of None \<Rightarrow> True | Some sw \<Rightarrow> vwLength < sw)
              then
                (case paths (this_side st) v of
                   None \<Rightarrow> Inl KeyError
                 | Some pv \<Rightarrow> meet w (record_seen w vwLength (pv @ [w]) st))
              else Inr st)))"

fun relax_all :: "node \<Rightarrow> (node \<times> edge_attr) list \<Rightarrow> bidi \<Rightarrow> py_error + bidi" where
  "relax_all v [] st = Inr st"
| "relax_all v (wd # rest) st =
     (case relax v wd st of Inl e \<Rightarrow> Inl e | Inr st1 \<Rightarrow> relax_all v rest st1)"

text \<open>
  One round of the \<^verbatim>\<open>while\<close> loop, entered with both heaps non-empty: the
  direction flips, the least entry leaves the heap of that direction, and its node is
  settled unless it was settled before.
\<close>

datatype step = Continue bidi | Return "(int \<times> path) option" | Fail py_error

definition flip :: "bidi \<Rightarrow> bidi" where
  "flip st = st\<lparr>backward := \<not> backward st\<rparr>"

definition popped :: "bidi \<Rightarrow> entry \<times> bidi" where
  "popped st =
     (case heappop (fringe (this_side st)) of
        (m, h) \<Rightarrow> (m, put_side ((this_side st)\<lparr>fringe := h\<rparr>) st))"

definition settle :: "node \<Rightarrow> int \<Rightarrow> bidi \<Rightarrow> bidi" where
  "settle v dist st = put_side ((this_side st)\<lparr>dists := (dists (this_side st))(v \<mapsto> dist)\<rparr>) st"

definition dj_step :: "graph \<Rightarrow> bidi \<Rightarrow> step" where
  "dj_step G st =
     (case popped (flip st) of
        (m, st2) \<Rightarrow>
          (let dist = fst m; v = snd (snd m)
           in if dists (this_side st2) v \<noteq> None then Continue st2
              else if dists (other_side (settle v dist st2)) v \<noteq> None
                then Return (final (settle v dist st2))
              else (case relax_all v (adj G v) (settle v dist st2) of
                      Inl e \<Rightarrow> Fail e
                    | Inr st4 \<Rightarrow> Continue st4)))"

text \<open>
  The loop ends: a round either drops a stale heap entry or settles a node, and a
  settled node adds at most one heap entry for each of its neighbours.
\<close>

definition pot :: "graph \<Rightarrow> (node \<rightharpoonup> int) \<Rightarrow> nat" where
  "pot G m = sum_list (map (\<lambda>(x, nb). if m x = None then 1 + length nb else 0) G)"

definition dj_measure :: "graph \<Rightarrow> bidi \<Rightarrow> nat" where
  "dj_measure G st =
     length (fringe (this_side st)) + length (fringe (other_side st))
     + pot G (dists (this_side st)) + pot G (dists (other_side st))"

lemma this_side_put [simp]: "this_side (put_side sd st) = sd"
  by (simp add: this_side_def put_side_def)

lemma other_side_put [simp]: "other_side (put_side sd st) = other_side st"
  by (simp add: other_side_def put_side_def)

lemma put_side_fields [simp]:
  "backward (put_side sd st) = backward st"
  "cnt (put_side sd st) = cnt st"
  "final (put_side sd st) = final st"
  by (simp_all add: put_side_def)

lemma flip_sides [simp]:
  "this_side (flip st) = other_side st"
  "other_side (flip st) = this_side st"
  "cnt (flip st) = cnt st"
  "final (flip st) = final st"
  by (simp_all add: flip_def this_side_def other_side_def)

lemma side_upd_fields [simp]:
  "this_side (st\<lparr>cnt := c\<rparr>) = this_side st"
  "other_side (st\<lparr>cnt := c\<rparr>) = other_side st"
  "this_side (st\<lparr>final := f\<rparr>) = this_side st"
  "other_side (st\<lparr>final := f\<rparr>) = other_side st"
  by (simp_all add: this_side_def other_side_def)

lemma least_in: "least m xs \<in> set (m # xs)"
  by (induction xs arbitrary: m) auto

lemma heappop_facts:
  assumes "h \<noteq> []" "heappop h = (m, h')"
  shows "m \<in> set h" "h' = remove1 m h" "Suc (length h') = length h"
proof -
  from assms(1) obtain x xs where h: "h = x # xs" by (cases h) auto
  from assms(2) have m: "m = least (hd h) (tl h)" and h': "h' = remove1 m h"
    by (auto simp: heappop_def Let_def)
  show "m \<in> set h" using least_in[of x xs] h m by simp
  then show "Suc (length h') = length h"
    using h' assms(1) by (simp only: length_remove1) (cases h; simp)
  show "h' = remove1 m h" by (rule h')
qed

lemma pot_mono: "pot G (m(v \<mapsto> d)) \<le> pot G m"
  unfolding pot_def by (induction G) auto

lemma pot_upd: "m v = None \<Longrightarrow> pot G (m(v \<mapsto> d)) + length (adj G v) \<le> pot G m"
proof (induction G)
  case Nil
  then show ?case by (simp add: pot_def adj_def)
next
  case (Cons a G)
  obtain x nb where a: "a = (x, nb)" by (cases a)
  show ?case
  proof (cases "x = v")
    case True
    have "pot G (m(v \<mapsto> d)) \<le> pot G m" by (rule pot_mono)
    then show ?thesis using True a Cons.prems by (simp add: pot_def adj_def)
  next
    case False
    then have "adj (a # G) v = adj G v" using a by (simp add: adj_def)
    then show ?thesis using Cons a False by (simp add: pot_def)
  qed
qed

lemma relax_frame:
  assumes "relax v wd st = Inr st'"
  shows "dists (this_side st') = dists (this_side st)"
    and "dists (other_side st') = dists (other_side st)"
    and "backward st' = backward st"
    and "length (fringe (this_side st')) \<le> Suc (length (fringe (this_side st)))"
    and "fringe (other_side st') = fringe (other_side st)"
  using assms
  by (auto simp: relax_def meet_def record_seen_def Let_def heappush_def
      split: prod.splits option.splits if_splits)

lemma relax_all_frame:
  assumes "relax_all v nbs st = Inr st'"
  shows "dists (this_side st') = dists (this_side st)
       \<and> dists (other_side st') = dists (other_side st)
       \<and> backward st' = backward st
       \<and> length (fringe (this_side st')) \<le> length (fringe (this_side st)) + length nbs
       \<and> fringe (other_side st') = fringe (other_side st)"
  using assms
proof (induction nbs arbitrary: st)
  case Nil
  then show ?case by simp
next
  case (Cons wd nbs)
  from Cons.prems obtain st1
    where r: "relax v wd st = Inr st1" and ra: "relax_all v nbs st1 = Inr st'"
    by (auto split: sum.splits)
  from relax_frame[OF r] Cons.IH[OF ra] show ?case by simp
qed

lemma dj_step_decreases:
  assumes ne: "fringe (this_side st) \<noteq> []" "fringe (other_side st) \<noteq> []"
    and step: "dj_step G st = Continue st'"
  shows "dj_measure G st' < dj_measure G st"
proof -
  obtain m h where hp: "heappop (fringe (other_side st)) = (m, h)"
    by (cases "heappop (fringe (other_side st))")
  define st2 where "st2 = put_side ((other_side st)\<lparr>fringe := h\<rparr>) (flip st)"
  have pop: "popped (flip st) = (m, st2)"
    by (simp add: popped_def hp st2_def)
  have len: "Suc (length h) = length (fringe (other_side st))"
    using heappop_facts(3)[OF ne(2) hp] .
  have st2: "fringe (this_side st2) = h" "dists (this_side st2) = dists (other_side st)"
    "other_side st2 = this_side st"
    by (simp_all add: st2_def)
  define v where "v = snd (snd m)"
  show ?thesis
  proof (cases "dists (this_side st2) v \<noteq> None")
    case True
    then have "st' = st2" using step pop by (simp add: dj_step_def v_def)
    then show ?thesis using st2 len by (simp add: dj_measure_def)
  next
    case False
    define st3 where "st3 = settle v (fst m) st2"
    have st3: "fringe (this_side st3) = h"
      "dists (this_side st3) = (dists (other_side st))(v \<mapsto> fst m)"
      "other_side st3 = this_side st"
      by (simp_all add: st3_def settle_def st2)
    from False step pop have ra: "relax_all v (adj G v) st3 = Inr st'"
      by (auto simp: dj_step_def v_def st3_def Let_def split: if_splits sum.splits)
    from False st2 have none: "dists (other_side st) v = None" by simp
    have "pot G ((dists (other_side st))(v \<mapsto> fst m)) + length (adj G v)
            \<le> pot G (dists (other_side st))"
      using none by (rule pot_upd)
    with relax_all_frame[OF ra] st3 len
    show ?thesis by (simp add: dj_measure_def)
  qed
qed

function dj_loop :: "graph \<Rightarrow> bidi \<Rightarrow> py_error + int \<times> path" where
  "dj_loop G st =
     (if fringe (fwd st) = [] \<or> fringe (bwd st) = [] then Inl NetworkXNoPath
      else (case dj_step G st of
              Continue st1 \<Rightarrow> dj_loop G st1
            | Return None \<Rightarrow> Inl UnboundLocalError
            | Return (Some r) \<Rightarrow> Inr r
            | Fail e \<Rightarrow> Inl e))"
  by pat_completeness auto
termination
proof (relation "measure (\<lambda>(G, st). dj_measure G st)")
  show "wf (measure (\<lambda>(G, st). dj_measure G st))" by simp
next
  fix G st st1
  assume "\<not> (fringe (fwd st) = [] \<or> fringe (bwd st) = [])" "dj_step G st = Continue st1"
  then show "((G, st1), (G, st)) \<in> measure (\<lambda>(G, st). dj_measure G st)"
    using dj_step_decreases[of st G st1] by (auto simp: this_side_def other_side_def)
qed

definition bidirectional_dijkstra :: "graph \<Rightarrow> node \<Rightarrow> node \<Rightarrow> py_error + int \<times> path" where
  "bidirectional_dijkstra G source target =
     (if source \<notin> set (nodes G) \<or> target \<notin> set (nodes G) then Inl NodeNotFound
      else if source = target then Inr (0, [source])
      else dj_loop G
             \<lparr>fwd = \<lparr>dists = Map.empty, paths = [source \<mapsto> [source]],
                     fringe = [(0, 0, source)], seen = [source \<mapsto> 0]\<rparr>,
              bwd = \<lparr>dists = Map.empty, paths = [target \<mapsto> [target]],
                     fringe = [(0, 1, target)], seen = [target \<mapsto> 0]\<rparr>,
              cnt = 2, final = None, backward = True\<rparr>)"

definition shortest_path :: "graph \<Rightarrow> node \<Rightarrow> node \<Rightarrow> py_error + path" where
  "shortest_path G source target =
     (case bidirectional_dijkstra G source target of Inl e \<Rightarrow> Inl e | Inr (d, p) \<Rightarrow> Inr p)"

section \<open>Path computation\<close>

text \<open>
  \<^verbatim>\<open>_compute_path_with_priority\<close>. Only \<^verbatim>\<open>NetworkXNoPath\<close> is caught; any other
  exception leaves the method.
\<close>

definition compute_path_with_priority :: "node \<Rightarrow> node \<Rightarrow> sdn \<Rightarrow> sdn result" where
  "compute_path_with_priority src dst s =
     (let all_paths = all_simple_paths (topology s) src dst
      in if all_paths = [] then set_flow src dst None s
         else
           (let prio = (case map_of (traffic s) (src, dst) of None \<Rightarrow> 1 | Some ti \<Rightarrow> priority ti)
            in case (if prio = 3 then shortest_path (topology s) src dst
                     else select_load_balanced_path (link_utilization s) all_paths) of
                 Inl e \<Rightarrow> (if e = NetworkXNoPath then set_flow src dst None s else Raised e s)
               | Inr p \<Rightarrow>
                  (case set_flow src dst (Some p) s of
                     Raised e s1 \<Rightarrow> Raised e s1
                   | Done s1 \<Rightarrow>
                       Done (if length all_paths > 1
                             then s1\<lparr>backup_paths :=
                                       AList.update (src, dst) (filter (\<lambda>q. q \<noteq> p) all_paths)
                                         (backup_paths s1)\<rparr>
                             else s1))))"

definition node_pairs :: "graph \<Rightarrow> (node \<times> node) list" where
  "node_pairs G =
     concat (map (\<lambda>src. map (\<lambda>dst. (src, dst)) (filter (\<lambda>dst. src \<noteq> dst) (nodes G))) (nodes G))"

definition compute_paths :: "sdn \<Rightarrow> sdn result" where
  "compute_paths s =
     for_each (\<lambda>(src, dst). compute_path_with_priority src dst) (node_pairs (topology s)) s"

section \<open>Utilization reporting\<close>

text \<open>
  \<^verbatim>\<open>show_utilization\<close> prints one line for each counter. \<^verbatim>\<open>self.topology.edges[u, v]\<close>
  raises \<^verbatim>\<open>KeyError\<close> when the edge is missing and the division raises
  \<^verbatim>\<open>ZeroDivisionError\<close> when the capacity is 0. The percentage is a float computed
  from the two numbers printed beside it and is left out of the report.
\<close>

definition show_line :: "(node \<times> node) \<times> int \<Rightarrow> sdn \<Rightarrow> sdn result" where
  "show_line kv s =
     (case kv of ((u, v), usage) \<Rightarrow>
        (case map_of (adj (topology s) u) v of
           None \<Rightarrow> Raised KeyError s
         | Some d \<Rightarrow>
             if capacity d = 0 then Raised ZeroDivisionError s
             else Done (say (LinkUsage u v usage (capacity d)) s)))"

definition show_utilization :: "sdn \<Rightarrow> sdn result" where
  "show_utilization s = for_each show_line (link_utilization s) (say UtilHeader s)"

section \<open>Reachable states\<close>

text \<open>
  The states the controller can be in: the fresh controller, and what any public
  method leaves behind, also when it raised.
\<close>

inductive reachable :: "sdn \<Rightarrow> bool" where
  r_init: "reachable init"
| r_add_node: "reachable s \<Longrightarrow> reachable (add_node ns s)"
| r_add_link: "reachable s \<Longrightarrow> reachable (add_link u v w c s)"
| r_remove_link: "reachable s \<Longrightarrow> reachable (state_of (remove_link u v s))"
| r_inject_flow: "reachable s \<Longrightarrow> reachable (state_of (inject_flow src dst ty s))"
| r_compute_paths: "reachable s \<Longrightarrow> reachable (state_of (compute_paths s))"
| r_show_utilization: "reachable s \<Longrightarrow> reachable (state_of (show_utilization s))"

section \<open>Example states\<close>

text \<open>
  Two nodes and a link; the triangle of the specification's scenario; a node \<open>A\<close>
  hanging by one link off the cycle \<open>B\<close>, \<open>C\<close>, \<open>D\<close>.
\<close>

definition two_nodes :: sdn where
  "two_nodes = add_link ''A'' ''B'' 1 10 (add_node [''A'', ''B''] init)"

definition triangle :: sdn where
  "triangle =
     add_link ''A'' ''C'' 5 10 (add_link ''B'' ''C'' 1 10 (add_link ''A'' ''B'' 1 10
       (add_node [''A'', ''B'', ''C''] init)))"

definition pendant :: sdn where
  "pendant =
     add_link ''D'' ''B'' 1 10 (add_link ''C'' ''D'' 1 10 (add_link ''B'' ''C'' 1 10
       (add_link ''A'' ''B'' 1 10 (add_node [''A'', ''B'', ''C'', ''D''] init))))"

text \<open>
  The triangle after a path computation and the removal of the link between \<open>A\<close> and
  \<open>C\<close>.
\<close>

definition stale :: sdn where
  "stale = state_of (remove_link ''A'' ''C'' (state_of (compute_paths triangle)))"

text \<open>The triangle after a path computation and one flow from \<open>A\<close> to \<open>C\<close>.\<close>

definition loaded :: sdn where
  "loaded = state_of (inject_flow ''A'' ''C'' ''default'' (state_of (compute_paths triangle)))"

text \<open>The triangle with a critical flow announced from \<open>A\<close> to \<open>C\<close>.\<close>

definition urgent :: sdn where
  "urgent = state_of (inject_flow ''A'' ''C'' ''critical'' triangle)"

section \<open>Facts about loops and counters\<close>

lemma for_each_inv:
  assumes "\<And>x s. x \<in> set xs \<Longrightarrow> P s \<Longrightarrow> P (state_of (f x s))" "P s"
  shows "P (state_of (for_each f xs s))"
  using assms
proof (induction xs arbitrary: s)
  case Nil
  then show ?case by simp
next
  case (Cons x xs)
  have px: "P (state_of (f x s))" using Cons.prems by simp
  show ?case
  proof (cases "f x s")
    case (Done s1)
    with px have "P s1" by simp
    then have "P (state_of (for_each f xs s1))"
      using Cons.IH Cons.prems(1) by simp
    with Done show ?thesis by simp
  next
    case (Raised e s1)
    with px show ?thesis by simp
  qed
qed

lemma eq_both_ways [simp]: "(b = a \<and> a = b) \<longleftrightarrow> a = b"
  by auto

definition sym_map :: "('a \<times> 'a \<rightharpoonup> 'b) \<Rightarrow> bool" where
  "sym_map m = (\<forall>a b. m (a, b) = m (b, a))"

lemma sym_mapD: "sym_map m \<Longrightarrow> m (a, b) = m (b, a)"
  unfolding sym_map_def by blast

lemma sym_map_upd2:
  assumes "sym_map m"
  shows "sym_map (m((u, v) \<mapsto> x, (v, u) \<mapsto> x))"
  unfolding sym_map_def
proof (intro allI)
  fix a b
  consider "a = u \<and> b = v" | "a = v \<and> b = u" | "\<not> (a = u \<and> b = v) \<and> \<not> (a = v \<and> b = u)"
    by blast
  then show "(m((u, v) \<mapsto> x, (v, u) \<mapsto> x)) (a, b) = (m((u, v) \<mapsto> x, (v, u) \<mapsto> x)) (b, a)"
  proof cases
    case 1
    then show ?thesis by simp
  next
    case 2
    then show ?thesis by simp
  next
    case 3
    then have "(m((u, v) \<mapsto> x, (v, u) \<mapsto> x)) (a, b) = m (a, b)"
      "(m((u, v) \<mapsto> x, (v, u) \<mapsto> x)) (b, a) = m (b, a)" by auto
    then show ?thesis using sym_mapD[OF assms, of a b] by (simp only:)
  qed
qed

lemma sym_map_del2:
  assumes "sym_map m"
  shows "sym_map (m((u, v) := None, (v, u) := None))"
  unfolding sym_map_def
proof (intro allI)
  fix a b
  consider "a = u \<and> b = v" | "a = v \<and> b = u" | "\<not> (a = u \<and> b = v) \<and> \<not> (a = v \<and> b = u)"
    by blast
  then show "(m((u, v) := None, (v, u) := None)) (a, b) = (m((u, v) := None, (v, u) := None)) (b, a)"
  proof cases
    case 1
    then show ?thesis by simp
  next
    case 2
    then show ?thesis by simp
  next
    case 3
    then have "(m((u, v) := None, (v, u) := None)) (a, b) = m (a, b)"
      "(m((u, v) := None, (v, u) := None)) (b, a) = m (b, a)" by auto
    then show ?thesis using sym_mapD[OF assms, of a b] by (simp only:)
  qed
qed

definition sym_counters :: "(node \<times> node, int) dict \<Rightarrow> bool" where
  "sym_counters lu = sym_map (map_of lu)"

lemma bump_Done:
  "map_of lu (a, b) = Some n \<Longrightarrow> bump a b lu = Done (AList.update (a, b) (n + 1) lu)"
  by (simp add: bump_def)

lemma bump_Raised: "map_of lu (a, b) = None \<Longrightarrow> bump a b lu = Raised KeyError lu"
  by (simp add: bump_def)

lemma count_path_sym: "sym_counters lu \<Longrightarrow> sym_counters (state_of (count_path p lu))"
proof (induction p lu rule: count_path.induct)
  case (1 a b rest lu)
  show ?case
  proof (cases "map_of lu (a, b)")
    case None
    then show ?thesis using "1.prems" by (simp add: bump_def)
  next
    case (Some n)
    define lu1 where "lu1 = AList.update (a, b) (n + 1) lu"
    have b1: "bump a b lu = Done lu1" using Some by (simp add: bump_Done lu1_def)
    have ba: "map_of lu (b, a) = Some n"
      using sym_mapD[of "map_of lu" b a] "1.prems" Some by (simp add: sym_counters_def)
    define k where "k = (if a = b then n + 1 else n)"
    have k: "map_of lu1 (b, a) = Some k"
      using ba unfolding lu1_def update_conv' k_def by (cases "a = b") simp_all
    define lu2 where "lu2 = AList.update (b, a) (k + 1) lu1"
    have b2: "bump b a lu1 = Done lu2" using k by (simp add: bump_Done lu2_def)
    have "\<exists>x. map_of lu2 = (map_of lu)((a, b) \<mapsto> x, (b, a) \<mapsto> x)"
      unfolding lu2_def lu1_def update_conv' k_def by (cases "a = b") auto
    then have "sym_counters lu2"
      using sym_map_upd2[of "map_of lu" a b] "1.prems" by (auto simp: sym_counters_def)
    then have "sym_counters (state_of (count_path (b # rest) lu2))"
      using "1.IH"[OF b1 b2] by simp
    then show ?thesis using b1 b2 by simp
  qed
qed (simp_all)

lemma count_flow_fields:
  "topology (state_of (count_flow p s)) = topology s"
  "flow_tables (state_of (count_flow p s)) = flow_tables s"
  "traffic (state_of (count_flow p s)) = traffic s"
  "backup_paths (state_of (count_flow p s)) = backup_paths s"
  "printed (state_of (count_flow p s)) = printed s"
  "link_utilization (state_of (count_flow p s)) = state_of (count_path p (link_utilization s))"
  by (simp_all add: count_flow_def split: result.splits)

lemma set_flow_fields:
  "topology (state_of (set_flow a b e s)) = topology s"
  "traffic (state_of (set_flow a b e s)) = traffic s"
  "backup_paths (state_of (set_flow a b e s)) = backup_paths s"
  "printed (state_of (set_flow a b e s)) = printed s"
  "link_utilization (state_of (set_flow a b e s)) = link_utilization s"
  by (simp_all add: set_flow_def split: option.splits)

lemma say_fields [simp]:
  "topology (say r s) = topology s"
  "flow_tables (say r s) = flow_tables s"
  "traffic (say r s) = traffic s"
  "backup_paths (say r s) = backup_paths s"
  "link_utilization (say r s) = link_utilization s"
  "printed (say r s) = printed s @ [r]"
  by (simp_all add: say_def)

lemma inject_flow_sym:
  "sym_counters (link_utilization s) \<Longrightarrow> sym_counters (link_utilization (state_of (inject_flow src dst ty s)))"
  by (auto simp: inject_flow_def Let_def count_flow_fields count_path_sym
      split: option.splits list.splits)

lemma reroute_sym:
  assumes "sym_counters (link_utilization s)"
  shows "sym_counters (link_utilization (state_of (reroute sd s)))"
proof -
  obtain src dst where sd: "sd = (src, dst)" by (cases sd)
  show ?thesis
  proof (cases "map_of (backup_paths s) (src, dst)")
    case None
    then show ?thesis using assms sd by (simp add: reroute_def set_flow_fields)
  next
    case (Some bs)
    show ?thesis
    proof (cases bs)
      case Nil
      then show ?thesis using assms sd Some by (simp add: reroute_def set_flow_fields)
    next
      case (Cons backup rest)
      define s0 where "s0 = s\<lparr>backup_paths := AList.update (src, dst) rest (backup_paths s)\<rparr>"
      have r: "reroute sd s =
          (case set_flow src dst (Some backup) s0 of
             Raised e s1 \<Rightarrow> Raised e s1
           | Done s1 \<Rightarrow> count_flow backup (say (Rerouted src dst backup) s1))"
        using sd Some Cons by (simp add: reroute_def s0_def)
      have lu0: "link_utilization (state_of (set_flow src dst (Some backup) s0)) = link_utilization s"
        by (simp add: set_flow_fields s0_def)
      show ?thesis
      proof (cases "set_flow src dst (Some backup) s0")
        case (Done s1)
        with lu0 have "link_utilization s1 = link_utilization s" by simp
        then show ?thesis using r Done assms by (simp add: count_flow_fields count_path_sym)
      next
        case (Raised e s1)
        with lu0 have "link_utilization s1 = link_utilization s" by simp
        then show ?thesis using r Raised assms by simp
      qed
    qed
  qed
qed

lemma handle_link_failure_sym:
  assumes "sym_counters (link_utilization s)"
  shows "sym_counters (link_utilization (state_of (handle_link_failure u v s)))"
  unfolding handle_link_failure_def
  by (rule for_each_inv[where P = "\<lambda>s. sym_counters (link_utilization s)"])
     (simp_all add: reroute_sym assms)

lemma delete_sym:
  assumes "sym_counters lu"
  shows "sym_counters (AList.delete (v, u) (AList.delete (u, v) lu))"
  using sym_map_del2[of "map_of lu" u v] assms
  by (simp add: sym_counters_def delete_conv')

lemma remove_link_sym:
  assumes "sym_counters (link_utilization s)"
  shows "sym_counters (link_utilization (state_of (remove_link u v s)))"
  using assms
  by (simp add: remove_link_def handle_link_failure_sym delete_sym)

lemma add_link_sym:
  assumes "sym_counters (link_utilization s)"
  shows "sym_counters (link_utilization (add_link u v w c s))"
  using sym_map_upd2[of "map_of (link_utilization s)" u v 0] assms
  by (simp add: sym_counters_def add_link_def update_conv')

lemma add_node_link_utilization [simp]:
  "link_utilization (add_node ns s) = link_utilization s"
  unfolding add_node_def
  by (induction ns arbitrary: s) (simp_all add: add_node1_def)

lemma compute_path_link_utilization:
  "link_utilization (state_of (compute_path_with_priority src dst s)) = link_utilization s"
  by (auto simp: compute_path_with_priority_def Let_def set_flow_def
      split: option.splits sum.splits result.splits)

lemma compute_paths_link_utilization:
  "link_utilization (state_of (compute_paths s)) = link_utilization s"
proof -
  have "link_utilization (state_of (for_each (\<lambda>(src, dst). compute_path_with_priority src dst) xs s))
        = link_utilization s" for xs
    by (rule for_each_inv[where P = "\<lambda>t. link_utilization t = link_utilization s"])
       (auto simp: compute_path_link_utilization)
  then show ?thesis by (simp add: compute_paths_def)
qed

lemma show_utilization_link_utilization:
  "link_utilization (state_of (show_utilization s)) = link_utilization s"
proof -
  have "link_utilization (state_of (for_each show_line xs t)) = link_utilization s"
    if "link_utilization t = link_utilization s" for xs t
    by (rule for_each_inv[where P = "\<lambda>t. link_utilization t = link_utilization s"])
       (auto simp: show_line_def that split: option.splits)
  then show ?thesis by (simp add: show_utilization_def)
qed

lemma reachable_sym: "reachable s \<Longrightarrow> sym_counters (link_utilization s)"
proof (induction rule: reachable.induct)
  case r_init
  show ?case by (simp add: init_def sym_counters_def sym_map_def)
qed (simp_all add: add_link_sym remove_link_sym inject_flow_sym
      compute_paths_link_utilization show_utilization_link_utilization)

section \<open>Facts about single operations\<close>

lemma flow_entry_traffic [simp]: "flow_entry (s\<lparr>traffic := t\<rparr>) = flow_entry s"
  by (simp add: flow_entry_def fun_eq_iff)

lemma g_add_node_existing: "n \<in> set (nodes G) \<Longrightarrow> g_add_node n G = G"
  by (auto simp: g_add_node_def nodes_def map_of_eq_None_iff split: option.splits)

lemma count_path3:
  assumes d: "a \<noteq> b" "b \<noteq> c" "a \<noteq> c"
    and ab: "map_of lu (a, b) = Some n1" and ba: "map_of lu (b, a) = Some n2"
    and bc: "map_of lu (b, c) = Some n3" and cb: "map_of lu (c, b) = Some n4"
  shows "\<exists>lu'. count_path [a, b, c] lu = Done lu' \<and>
           map_of lu' = (map_of lu)((a, b) \<mapsto> n1 + 1, (b, a) \<mapsto> n2 + 1,
                                     (b, c) \<mapsto> n3 + 1, (c, b) \<mapsto> n4 + 1)"
  using assms by (simp add: bump_def update_conv')

section \<open>Simple paths and their enumeration\<close>

text \<open>
  The glossary's simple path: a sequence of distinct nodes in which every consecutive
  pair is connected by a link.
\<close>

definition is_edge :: "graph \<Rightarrow> node \<Rightarrow> node \<Rightarrow> bool" where
  "is_edge G u v = (map_of (adj G u) v \<noteq> None)"

fun linked :: "graph \<Rightarrow> path \<Rightarrow> bool" where
  "linked G (u # v # rest) = (is_edge G u v \<and> linked G (v # rest))"
| "linked G p = True"

definition simple_path :: "graph \<Rightarrow> node \<Rightarrow> node \<Rightarrow> path \<Rightarrow> bool" where
  "simple_path G src dst p =
     (p \<noteq> [] \<and> hd p = src \<and> last p = dst \<and> distinct p \<and> linked G p)"

lemma is_edge_neighbour: "is_edge G u v \<longleftrightarrow> v \<in> set (map fst (adj G u))"
  by (simp add: is_edge_def map_of_eq_None_iff)

lemma is_edge_node: "is_edge G u v \<Longrightarrow> u \<in> set (nodes G)"
proof -
  assume "is_edge G u v"
  then have "map_of G u \<noteq> None" by (auto simp: is_edge_def adj_def split: option.splits)
  then show ?thesis by (simp add: map_of_eq_None_iff nodes_def)
qed

lemma linked_Cons: "linked G (u # q) \<longleftrightarrow> (q = [] \<or> (is_edge G u (hd q) \<and> linked G q))"
  by (cases q) simp_all

lemma linked_nodes:
  "linked G p \<Longrightarrow> p \<noteq> [] \<Longrightarrow> last p \<in> set (nodes G) \<Longrightarrow> set p \<subseteq> set (nodes G)"
proof (induction G p rule: linked.induct)
  case (1 G u v rest)
  then show ?case by (auto dest: is_edge_node)
qed auto

lemma dfs_sound:
  assumes "p \<in> set (dfs G t c visited children)"
  shows "\<exists>q. p = visited @ q \<and> q \<noteq> [] \<and> hd q \<in> set children \<and> last q = t \<and> distinct q
           \<and> set q \<inter> set visited = {} \<and> linked G q"
  using assms
proof (induction G t c visited children rule: dfs.induct)
  case (1 G t c visited)
  then show ?case by simp
next
  case (2 G t c visited child children)
  from "2.prems" consider
    (a) "child \<notin> set visited" "child = t" "p = visited @ [child]"
    | (b) "child \<notin> set visited" "child \<noteq> t" "length visited < c"
          "p \<in> set (dfs G t c (visited @ [child]) (map fst (adj G child)))"
    | (c) "p \<in> set (dfs G t c visited children)"
    by (auto split: if_splits)
  then show ?case
  proof cases
    case a
    then show ?thesis by (intro exI[of _ "[child]"]) simp
  next
    case b
    from "2.IH"(1)[OF b(1,2,3,4)] obtain q where
      q: "p = (visited @ [child]) @ q" "q \<noteq> []" "hd q \<in> set (map fst (adj G child))"
         "last q = t" "distinct q" "set q \<inter> set (visited @ [child]) = {}" "linked G q"
      by blast
    show ?thesis
      using q b(1) by (intro exI[of _ "child # q"]) (auto simp: linked_Cons is_edge_neighbour)
  next
    case c
    from "2.IH"(2)[OF c] show ?thesis by auto
  qed
qed

lemma dfs_complete:
  assumes "q \<noteq> []" "hd q \<in> set children" "last q = t" "distinct q"
    "set q \<inter> set visited = {}" "linked G q" "length visited + length q \<le> Suc c"
  shows "visited @ q \<in> set (dfs G t c visited children)"
  using assms
proof (induction G t c visited children arbitrary: q rule: dfs.induct)
  case (1 G t c visited)
  then show ?case by simp
next
  case (2 G t c visited child children)
  show ?case
  proof (cases "hd q \<in> set children")
    case True
    from "2.IH"(2)[OF "2.prems"(1) True "2.prems"(3-7)] show ?thesis by simp
  next
    case False
    with "2.prems"(2) have hq: "hd q = child" by simp
    obtain q' where q: "q = child # q'" using hq "2.prems"(1) by (cases q) auto
    have nv: "child \<notin> set visited" using "2.prems"(5) q by auto
    show ?thesis
    proof (cases "child = t")
      case True
      have "q' = []"
      proof (rule ccontr)
        assume "q' \<noteq> []"
        then have "last q' = t" using "2.prems"(3) q by simp
        then have "t \<in> set q'" using \<open>q' \<noteq> []\<close> last_in_set by metis
        then show False using "2.prems"(4) q True by simp
      qed
      then show ?thesis using q nv True by simp
    next
      case False
      then have ne: "q' \<noteq> []" using "2.prems"(3) q by auto
      then have len: "length visited < c" using "2.prems"(7) q by (cases q') auto
      have "(visited @ [child]) @ q' \<in> set (dfs G t c (visited @ [child]) (map fst (adj G child)))"
      proof (rule "2.IH"(1)[OF nv False len ne])
        show "hd q' \<in> set (map fst (adj G child))"
          using "2.prems"(6) q ne by (simp add: linked_Cons is_edge_neighbour)
        show "last q' = t" using "2.prems"(3) q ne by simp
        show "distinct q'" using "2.prems"(4) q by simp
        show "set q' \<inter> set (visited @ [child]) = {}" using "2.prems"(4,5) q by auto
        show "linked G q'" using "2.prems"(6) q ne by (simp add: linked_Cons)
        show "length (visited @ [child]) + length q' \<le> Suc c" using "2.prems"(7) q by simp
      qed
      then show ?thesis using q nv False len by simp
    qed
  qed
qed

lemma distinct_length_le:
  assumes "distinct p" "set p \<subseteq> set xs"
  shows "length p \<le> length xs"
proof -
  have "length p = card (set p)" using assms(1) by (simp add: distinct_card)
  also have "\<dots> \<le> card (set xs)" using assms(2) by (simp add: card_mono)
  also have "\<dots> \<le> length xs" by (rule card_length)
  finally show ?thesis .
qed

lemma all_simple_paths_iff:
  assumes "src \<in> set (nodes G)" "dst \<in> set (nodes G)" "src \<noteq> dst"
  shows "p \<in> set (all_simple_paths G src dst) \<longleftrightarrow> simple_path G src dst p"
proof -
  have "distinct [src, dst]" "set [src, dst] \<subseteq> set (nodes G)" using assms by auto
  from distinct_length_le[OF this] have big: "2 \<le> length G" by (simp add: nodes_def)
  then have asp: "all_simple_paths G src dst
                  = dfs G dst (length G - 1) [src] (map fst (adj G src))"
    using assms(3) by (simp add: all_simple_paths_def)
  show ?thesis
  proof
    assume "p \<in> set (all_simple_paths G src dst)"
    with asp dfs_sound[of p G dst "length G - 1" "[src]" "map fst (adj G src)"]
    obtain q where q: "p = [src] @ q" "q \<noteq> []" "hd q \<in> set (map fst (adj G src))"
      "last q = dst" "distinct q" "set q \<inter> set [src] = {}" "linked G q"
      by auto
    then show "simple_path G src dst p"
      by (auto simp: simple_path_def linked_Cons is_edge_neighbour)
  next
    assume sp: "simple_path G src dst p"
    then obtain q where p: "p = src # q" by (cases p) (auto simp: simple_path_def)
    from sp p assms(3) have ne: "q \<noteq> []" by (auto simp: simple_path_def)
    have "set p \<subseteq> set (nodes G)"
      using sp assms(2) by (intro linked_nodes) (auto simp: simple_path_def)
    with sp have "length p \<le> length G"
      using distinct_length_le[of p "nodes G"] by (simp add: simple_path_def nodes_def)
    then have len: "length [src] + length q \<le> Suc (length G - 1)" using p by simp
    have "[src] @ q \<in> set (dfs G dst (length G - 1) [src] (map fst (adj G src)))"
      using sp p ne
      by (intro dfs_complete[OF ne _ _ _ _ _ len])
         (auto simp: simple_path_def linked_Cons is_edge_neighbour)
    then show "p \<in> set (all_simple_paths G src dst)" using asp p by simp
  qed
qed

lemma min_from_first:
  "\<exists>pre post. b # xs = pre @ min_from key b xs # post
      \<and> (\<forall>x\<in>set pre. key (min_from key b xs) < key x)
      \<and> (\<forall>x\<in>set post. key (min_from key b xs) \<le> key x)"
proof (induction xs arbitrary: b)
  case Nil
  show ?case by (rule exI[of _ "[]"]) simp
next
  case (Cons x xs)
  show ?case
  proof (cases "key x < key b")
    case True
    define m where "m = min_from key x xs"
    from Cons.IH[of x] obtain pre post where
      pp: "x # xs = pre @ m # post" "\<forall>y\<in>set pre. key m < key y" "\<forall>y\<in>set post. key m \<le> key y"
      unfolding m_def by blast
    have "key m \<le> key x"
    proof (cases pre)
      case Nil
      with arg_cong[OF pp(1), of hd] have "m = x" by simp
      then show ?thesis by simp
    next
      case (Cons a list)
      with arg_cong[OF pp(1), of hd] have "a = x" by simp
      with pp(2) Cons show ?thesis by simp
    qed
    with True have lt: "key m < key b" by simp
    have r: "min_from key b (x # xs) = m" using True by (simp add: m_def)
    have "b # x # xs = (b # pre) @ m # post" using pp(1) by simp
    moreover have "\<forall>y\<in>set (b # pre). key m < key y" using pp(2) lt by simp
    ultimately show ?thesis unfolding r using pp(3) by blast
  next
    case False
    define m where "m = min_from key b xs"
    from Cons.IH[of b] obtain pre post where
      pp: "b # xs = pre @ m # post" "\<forall>y\<in>set pre. key m < key y" "\<forall>y\<in>set post. key m \<le> key y"
      unfolding m_def by blast
    have r: "min_from key b (x # xs) = m" using False by (simp add: m_def)
    show ?thesis
    proof (cases pre)
      case Nil
      with arg_cong[OF pp(1), of hd] have mb: "m = b" by simp
      from Nil arg_cong[OF pp(1), of tl] have "post = xs" by simp
      then have "b # x # xs = [] @ m # (x # post)" using mb by simp
      moreover have "\<forall>y\<in>set (x # post). key m \<le> key y" using pp(3) False mb by simp
      ultimately show ?thesis unfolding r by (metis empty_iff empty_set)
    next
      case (Cons a list)
      with arg_cong[OF pp(1), of hd] have a: "a = b" by simp
      from Cons arg_cong[OF pp(1), of tl] have xs: "xs = list @ m # post" by simp
      have "key m < key b" using pp(2) Cons a by simp
      with False have "key m < key x" by simp
      then have "\<forall>y\<in>set (b # x # list). key m < key y" using pp(2) Cons a by simp
      moreover have "b # x # xs = (b # x # list) @ m # post" using xs by simp
      ultimately show ?thesis unfolding r using pp(3) by blast
    qed
  qed
qed

lemma select_first_min:
  assumes "select_load_balanced_path lu ps = Inr p"
  shows "\<exists>pre post. ps = pre @ p # post
      \<and> (\<forall>q\<in>set pre. path_util lu p < path_util lu q)
      \<and> (\<forall>q\<in>set post. path_util lu p \<le> path_util lu q)"
proof -
  from assms obtain a rest where ps: "ps = a # rest"
    by (cases ps) (auto simp: select_load_balanced_path_def)
  define f where "f = (\<lambda>p. (path_util lu p, p))"
  from assms ps have p: "p = snd (min_from fst (f a) (map f rest))"
    by (simp add: select_load_balanced_path_def f_def)
  from min_from_first[of "f a" "map f rest" fst] obtain pre post where
    pp: "f a # map f rest = pre @ min_from fst (f a) (map f rest) # post"
      "\<forall>x\<in>set pre. fst (min_from fst (f a) (map f rest)) < fst x"
      "\<forall>x\<in>set post. fst (min_from fst (f a) (map f rest)) \<le> fst x" by blast
  define m where "m = min_from fst (f a) (map f rest)"
  from pp(1) have "map f ps = pre @ m # post" by (simp add: ps m_def)
  then obtain pre' x post' where
    s: "ps = pre' @ x # post'" "pre = map f pre'" "m = f x" "post = map f post'"
    by (auto simp: map_eq_append_conv map_eq_Cons_conv)
  have "x = p" using p s(3) by (simp add: m_def f_def)
  moreover have "fst m = path_util lu p" using s(3) \<open>x = p\<close> by (simp add: f_def)
  ultimately show ?thesis
    using pp(2,3) s unfolding m_def[symmetric]
    by (intro exI[of _ pre'] exI[of _ post']) (auto simp: f_def)
qed

section \<open>Walks and their weight\<close>

text \<open>
  The weight of a link and the total edge weight of a path. A walk is a path without
  the requirement that its nodes are distinct.
\<close>

definition wt :: "graph \<Rightarrow> node \<Rightarrow> node \<Rightarrow> int" where
  "wt G u v = (case map_of (adj G u) v of None \<Rightarrow> 0 | Some d \<Rightarrow> weight d)"

fun path_weight :: "graph \<Rightarrow> path \<Rightarrow> int" where
  "path_weight G (u # v # rest) = wt G u v + path_weight G (v # rest)"
| "path_weight G p = 0"

definition walk :: "graph \<Rightarrow> node \<Rightarrow> node \<Rightarrow> path \<Rightarrow> bool" where
  "walk G a b p = (p \<noteq> [] \<and> hd p = a \<and> last p = b \<and> linked G p)"

text \<open>
  What \<^verbatim>\<open>nx.Graph\<close> maintains: the keys of a dict are distinct, and the two
  adjacency entries of an edge hold the same attribute dict.
\<close>

definition wf_graph :: "graph \<Rightarrow> bool" where
  "wf_graph G =
     (distinct (map fst G) \<and>
      list_all (\<lambda>(u, nb). distinct (map fst nb) \<and>
                 list_all (\<lambda>(v, d). map_of (adj G v) u = Some d) nb) G)"

definition nonneg :: "graph \<Rightarrow> bool" where
  "nonneg G = list_all (\<lambda>(u, nb). list_all (\<lambda>(v, d). 0 \<le> weight d) nb) G"

lemma adj_in: "map_of (adj G u) v = Some d \<Longrightarrow> \<exists>nb. (u, nb) \<in> set G \<and> (v, d) \<in> set nb"
  by (auto simp: adj_def split: option.splits dest!: map_of_SomeD)

lemma wf_sym:
  assumes "wf_graph G" "map_of (adj G u) v = Some d"
  shows "map_of (adj G v) u = Some d"
proof -
  from adj_in[OF assms(2)] obtain nb where "(u, nb) \<in> set G" "(v, d) \<in> set nb" by blast
  with assms(1) show ?thesis by (auto simp: wf_graph_def list_all_iff)
qed

lemma wf_adj_distinct: "wf_graph G \<Longrightarrow> distinct (map fst (adj G u))"
proof -
  assume wf: "wf_graph G"
  show ?thesis
  proof (cases "map_of G u")
    case None
    then show ?thesis by (simp add: adj_def)
  next
    case (Some nb)
    then have "(u, nb) \<in> set G" by (rule map_of_SomeD)
    with wf Some show ?thesis by (auto simp: wf_graph_def list_all_iff adj_def)
  qed
qed

lemma wf_adj_mem:
  "wf_graph G \<Longrightarrow> (w, d) \<in> set (adj G v) \<longleftrightarrow> map_of (adj G v) w = Some d"
  using wf_adj_distinct[of G v] by (auto dest: map_of_SomeD)

lemma nonneg_wt: "nonneg G \<Longrightarrow> 0 \<le> wt G u v"
proof -
  assume n: "nonneg G"
  show ?thesis
  proof (cases "map_of (adj G u) v")
    case None
    then show ?thesis by (simp add: wt_def)
  next
    case (Some d)
    from adj_in[OF Some] n have "0 \<le> weight d" by (auto simp: nonneg_def list_all_iff)
    with Some show ?thesis by (simp add: wt_def)
  qed
qed

lemma nonneg_path_weight: "nonneg G \<Longrightarrow> 0 \<le> path_weight G p"
proof (induction G p rule: path_weight.induct)
  case (1 G u v rest)
  then show ?case using nonneg_wt[of G u v] by simp
qed simp_all

lemma wt_sym: "wf_graph G \<Longrightarrow> wt G u v = wt G v u"
proof -
  assume wf: "wf_graph G"
  show ?thesis
  proof (cases "map_of (adj G u) v")
    case (Some d)
    with wf_sym[OF wf Some] show ?thesis by (simp add: wt_def)
  next
    case None
    show ?thesis
    proof (cases "map_of (adj G v) u")
      case (Some d)
      with wf_sym[OF wf Some] None show ?thesis by simp
    next
      case n2: None
      with None show ?thesis by (simp add: wt_def)
    qed
  qed
qed

lemma is_edge_sym: "wf_graph G \<Longrightarrow> is_edge G u v \<Longrightarrow> is_edge G v u"
  by (auto simp: is_edge_def dest: wf_sym)

lemma linked_append:
  "linked G (xs @ ys) \<longleftrightarrow>
     linked G xs \<and> linked G ys \<and> (xs = [] \<or> ys = [] \<or> is_edge G (last xs) (hd ys))"
proof (induction xs)
  case Nil
  show ?case by simp
next
  case (Cons x xs)
  show ?case
  proof (cases xs)
    case Nil
    then show ?thesis by (cases ys) auto
  next
    case (Cons y zs)
    with Cons.IH show ?thesis by auto
  qed
qed

lemma path_weight_append:
  "path_weight G (xs @ ys) =
     path_weight G xs + (if xs = [] \<or> ys = [] then 0 else wt G (last xs) (hd ys))
     + path_weight G ys"
proof (induction xs)
  case Nil
  show ?case by simp
next
  case (Cons x xs)
  show ?case
  proof (cases xs)
    case Nil
    then show ?thesis by (cases ys) auto
  next
    case (Cons y zs)
    with Cons.IH show ?thesis by auto
  qed
qed

lemma linked_rev: "wf_graph G \<Longrightarrow> linked G (rev p) = linked G p"
proof (induction p)
  case Nil
  then show ?case by simp
next
  case (Cons a p)
  then show ?case
    by (cases p) (auto simp: linked_append hd_rev dest: is_edge_sym)
qed

lemma path_weight_rev: "wf_graph G \<Longrightarrow> path_weight G (rev p) = path_weight G p"
proof (induction p)
  case Nil
  then show ?case by simp
next
  case (Cons a p)
  then show ?case
    by (cases p) (auto simp: path_weight_append hd_rev wt_sym[of G a])
qed

lemma walk_rev: "wf_graph G \<Longrightarrow> walk G a b p \<Longrightarrow> walk G b a (rev p)"
  by (auto simp: walk_def linked_rev hd_rev last_rev)

lemma walk_snoc:
  assumes "walk G a v p" "is_edge G v w"
  shows "walk G a w (p @ [w])" "path_weight G (p @ [w]) = path_weight G p + wt G v w"
  using assms by (auto simp: walk_def linked_append path_weight_append)

lemma walk_join:
  assumes wf: "wf_graph G" and p0: "walk G a w p0" and p1: "walk G c w p1"
  shows "walk G a c (p0 @ tl (rev p1))"
    and "path_weight G (p0 @ tl (rev p1)) = path_weight G p0 + path_weight G p1"
proof -
  from p1 obtain q where r: "rev p1 = w # q"
    by (cases "rev p1") (auto simp: walk_def hd_rev)
  from walk_rev[OF wf p1] r have w1: "walk G w c (w # q)" by simp
  have "p0 @ tl (rev p1) = butlast p0 @ (w # q)"
    using p0 r by (simp add: walk_def) (metis append_butlast_last_id append.assoc append_Cons append_Nil)
  moreover have "p0 = butlast p0 @ [w]" using p0 by (auto simp: walk_def)
  ultimately have e: "p0 @ tl (rev p1) = butlast p0 @ (w # q)" "p0 = butlast p0 @ [w]" by simp_all
  have l0: "linked G (butlast p0 @ [w])" using p0 e(2) by (simp add: walk_def)
  have lq: "linked G (w # q)" using w1 by (simp add: walk_def)
  show "walk G a c (p0 @ tl (rev p1))"
  proof -
    have "linked G (butlast p0 @ (w # q))"
      using l0 lq by (auto simp: linked_append)
    moreover have "hd (butlast p0 @ (w # q)) = a"
      using p0 e(2) by (cases "butlast p0") (auto simp: walk_def) 
    moreover have "last (butlast p0 @ (w # q)) = c" using w1 by (simp add: walk_def)
    ultimately show ?thesis unfolding e(1) by (simp add: walk_def)
  qed
  have "path_weight G (butlast p0 @ (w # q)) = path_weight G (butlast p0 @ [w]) + path_weight G (w # q)"
    by (simp add: path_weight_append)
  moreover have "path_weight G (w # q) = path_weight G p1"
    using path_weight_rev[OF wf, of p1] r by simp
  ultimately show "path_weight G (p0 @ tl (rev p1)) = path_weight G p0 + path_weight G p1"
    using e by simp
qed

text \<open>A walk that starts inside a set of nodes and ends outside steps out of it.\<close>

lemma crossing:
  assumes "linked G q" "q \<noteq> []" "hd q \<in> F" "last q \<notin> F"
  shows "\<exists>pre u y post. q = pre @ u # y # post \<and> u \<in> F \<and> y \<notin> F"
  using assms
proof (induction q)
  case Nil
  then show ?case by simp
next
  case (Cons a q)
  show ?case
  proof (cases q)
    case Nil
    with Cons.prems show ?thesis by simp
  next
    case (Cons b q')
    show ?thesis
    proof (cases "b \<in> F")
      case False
      with Cons Cons.prems show ?thesis
        by (intro exI[of _ "[]"] exI[of _ a] exI[of _ b] exI[of _ q']) simp
    next
      case True
      with Cons Cons.prems Cons.IH obtain pre u y post where
        "q = pre @ u # y # post" "u \<in> F" "y \<notin> F" by auto
      then show ?thesis
        by (intro exI[of _ "a # pre"] exI[of _ u] exI[of _ y] exI[of _ post]) simp
    qed
  qed
qed

lemma walk_split:
  assumes "walk G a b (pre @ u # y # post)"
  shows "walk G a u (pre @ [u])" "is_edge G u y" "walk G y b (y # post)"
    "path_weight G (pre @ u # y # post)
       = path_weight G (pre @ [u]) + wt G u y + path_weight G (y # post)"
proof -
  have e: "pre @ u # y # post = (pre @ [u]) @ (y # post)" by simp
  from assms have l: "linked G ((pre @ [u]) @ (y # post))" unfolding e by (simp add: walk_def)
  then show "is_edge G u y" by (simp only: linked_append) simp
  from l have "linked G (pre @ [u])" by (simp only: linked_append)
  moreover have "hd (pre @ [u]) = a" using assms by (cases pre) (auto simp: walk_def)
  ultimately show "walk G a u (pre @ [u])" by (simp add: walk_def)
  from l have "linked G (y # post)" by (simp only: linked_append)
  then show "walk G y b (y # post)" using assms by (auto simp: walk_def)
  show "path_weight G (pre @ u # y # post)
       = path_weight G (pre @ [u]) + wt G u y + path_weight G (y # post)"
    unfolding e by (simp only: path_weight_append) simp
qed

lemma simple_path_walk: "simple_path G a b p \<Longrightarrow> walk G a b p"
  by (simp add: simple_path_def walk_def)

section \<open>Invariants of the bidirectional search\<close>

lemma least_min: "e \<in> set (m # xs) \<Longrightarrow> fst (least m xs) \<le> fst e"
proof (induction xs arbitrary: m e)
  case Nil
  then show ?case by simp
next
  case (Cons x xs)
  show ?case
  proof (cases "entry_less x m")
    case True
    then have xm: "fst x \<le> fst m" by (auto simp: entry_less_def)
    from Cons.IH[of x x] have "fst (least x xs) \<le> fst x" by simp
    moreover from Cons.IH[of e x] have "e \<in> set xs \<Longrightarrow> fst (least x xs) \<le> fst e" by simp
    ultimately show ?thesis using True xm Cons.prems by auto
  next
    case False
    then have mx: "fst m \<le> fst x" by (auto simp: entry_less_def)
    from Cons.IH[of m m] have "fst (least m xs) \<le> fst m" by simp
    moreover from Cons.IH[of e m] have "e \<in> set (m # xs) \<Longrightarrow> fst (least m xs) \<le> fst e" by simp
    ultimately show ?thesis using False mx Cons.prems by auto
  qed
qed

lemma heappop_min:
  assumes "h \<noteq> []" "heappop h = (m, h')" "e \<in> set h"
  shows "fst m \<le> fst e"
proof -
  from assms(1) obtain x xs where h: "h = x # xs" by (cases h) auto
  from assms(2) h have "m = least x xs" by (auto simp: heappop_def Let_def)
  with least_min[of e x xs] assms(3) h show ?thesis by simp
qed

text \<open>
  What holds of one search between two rounds of the loop. \<open>r\<close> is the node the search
  started from.
\<close>

definition side_inv :: "graph \<Rightarrow> node \<Rightarrow> side \<Rightarrow> bool" where
  "side_inv G r sd \<longleftrightarrow>
     (\<forall>v d. dists sd v = Some d \<longrightarrow> seen sd v = Some d) \<and>
     (\<forall>v d. seen sd v = Some d \<longrightarrow>
        (\<exists>p. paths sd v = Some p \<and> walk G r v p \<and> path_weight G p = d)) \<and>
     (\<forall>v d q. dists sd v = Some d \<longrightarrow> walk G r v q \<longrightarrow> d \<le> path_weight G q) \<and>
     (\<forall>v d. seen sd v = Some d \<longrightarrow> dists sd v = None \<longrightarrow> (\<exists>c. (d, c, v) \<in> set (fringe sd))) \<and>
     (\<forall>k c x. (k, c, x) \<in> set (fringe sd) \<longrightarrow> (\<exists>d. seen sd x = Some d \<and> d \<le> k)) \<and>
     (\<forall>v d k c x. dists sd v = Some d \<longrightarrow> (k, c, x) \<in> set (fringe sd) \<longrightarrow> d \<le> k) \<and>
     seen sd r = Some 0 \<and>
     ((\<exists>v. dists sd v \<noteq> None) \<longrightarrow> dists sd r \<noteq> None) \<and>
     ((\<forall>v. dists sd v = None) \<longrightarrow> (\<forall>x. seen sd x \<noteq> None \<longrightarrow> x = r))"

lemma side_invI:
  assumes "\<And>v d. dists sd v = Some d \<Longrightarrow> seen sd v = Some d"
    and "\<And>v d. seen sd v = Some d \<Longrightarrow>
            \<exists>p. paths sd v = Some p \<and> walk G r v p \<and> path_weight G p = d"
    and "\<And>v d q. dists sd v = Some d \<Longrightarrow> walk G r v q \<Longrightarrow> d \<le> path_weight G q"
    and "\<And>v d. seen sd v = Some d \<Longrightarrow> dists sd v = None \<Longrightarrow> \<exists>c. (d, c, v) \<in> set (fringe sd)"
    and "\<And>k c x. (k, c, x) \<in> set (fringe sd) \<Longrightarrow> \<exists>d. seen sd x = Some d \<and> d \<le> k"
    and "\<And>v d k c x. dists sd v = Some d \<Longrightarrow> (k, c, x) \<in> set (fringe sd) \<Longrightarrow> d \<le> k"
    and "seen sd r = Some 0"
    and "\<And>v. dists sd v \<noteq> None \<Longrightarrow> dists sd r \<noteq> None"
    and "\<And>x. \<forall>v. dists sd v = None \<Longrightarrow> seen sd x \<noteq> None \<Longrightarrow> x = r"
  shows "side_inv G r sd"
  unfolding side_inv_def
  apply (intro conjI)
  subgoal using assms(1) by blast
  subgoal using assms(2) by blast
  subgoal using assms(3) by blast
  subgoal using assms(4) by blast
  subgoal using assms(5) by blast
  subgoal using assms(6) by blast
  subgoal using assms(7) by blast
  subgoal using assms(8) by blast
  subgoal using assms(9) by blast
  done

lemma side_inv_seen: "side_inv G r sd \<Longrightarrow> dists sd v = Some d \<Longrightarrow> seen sd v = Some d"
  unfolding side_inv_def by blast

lemma side_inv_path:
  "side_inv G r sd \<Longrightarrow> seen sd v = Some d \<Longrightarrow>
     \<exists>p. paths sd v = Some p \<and> walk G r v p \<and> path_weight G p = d"
  unfolding side_inv_def by blast

lemma side_inv_opt:
  "side_inv G r sd \<Longrightarrow> dists sd v = Some d \<Longrightarrow> walk G r v q \<Longrightarrow> d \<le> path_weight G q"
  unfolding side_inv_def by blast

lemma side_inv_queued:
  "side_inv G r sd \<Longrightarrow> seen sd v = Some d \<Longrightarrow> dists sd v = None \<Longrightarrow>
     \<exists>c. (d, c, v) \<in> set (fringe sd)"
  unfolding side_inv_def by blast

lemma side_inv_entry:
  "side_inv G r sd \<Longrightarrow> (k, c, x) \<in> set (fringe sd) \<Longrightarrow> \<exists>d. seen sd x = Some d \<and> d \<le> k"
  unfolding side_inv_def by blast

lemma side_inv_mono:
  "side_inv G r sd \<Longrightarrow> dists sd v = Some d \<Longrightarrow> (k, c, x) \<in> set (fringe sd) \<Longrightarrow> d \<le> k"
  unfolding side_inv_def by blast

lemma side_inv_root: "side_inv G r sd \<Longrightarrow> seen sd r = Some 0"
  unfolding side_inv_def by blast

lemma side_inv_root_first: "side_inv G r sd \<Longrightarrow> dists sd v \<noteq> None \<Longrightarrow> dists sd r \<noteq> None"
  unfolding side_inv_def by blast

lemma side_inv_fresh:
  "side_inv G r sd \<Longrightarrow> \<forall>v. dists sd v = None \<Longrightarrow> seen sd x \<noteq> None \<Longrightarrow> x = r"
  unfolding side_inv_def by blast

text \<open>A settled node is scanned when all its links have been relaxed.\<close>

definition scanned :: "graph \<Rightarrow> side \<Rightarrow> node \<Rightarrow> bool" where
  "scanned G sd v \<longleftrightarrow>
     (\<forall>w e. map_of (adj G v) w = Some e \<longrightarrow>
        (\<exists>dv sw. dists sd v = Some dv \<and> seen sd w = Some sw \<and> sw \<le> dv + weight e))"

lemma scannedD:
  "scanned G sd v \<Longrightarrow> map_of (adj G v) w = Some e \<Longrightarrow>
     \<exists>dv sw. dists sd v = Some dv \<and> seen sd w = Some sw \<and> sw \<le> dv + weight e"
  unfolding scanned_def by blast

lemma is_edge_wt: "is_edge G u y \<Longrightarrow> \<exists>e. map_of (adj G u) y = Some e \<and> wt G u y = weight e"
  by (auto simp: is_edge_def wt_def)

text \<open>
  A walk from the start to a node that is not settled is at least as long as the
  distance seen for the first node on it that is not settled.
\<close>

lemma leaves_settled:
  assumes inv: "side_inv G r sd" and nn: "nonneg G"
    and sc: "\<And>u. dists sd u \<noteq> None \<Longrightarrow> scanned G sd u"
    and r: "dists sd r \<noteq> None"
    and w: "walk G r x q" and x: "dists sd x = None"
  shows "\<exists>y sy c. dists sd y = None \<and> seen sd y = Some sy \<and> (sy, c, y) \<in> set (fringe sd)
           \<and> sy \<le> path_weight G q"
proof -
  define F where "F = {u. dists sd u \<noteq> None}"
  from w have "linked G q" "q \<noteq> []" "hd q \<in> F" "last q \<notin> F"
    using r x by (auto simp: walk_def F_def)
  from crossing[OF this] obtain pre u y post where
    q: "q = pre @ u # y # post" and u: "u \<in> F" and y: "y \<notin> F" by blast
  from walk_split[OF w[unfolded q]] have
    wu: "walk G r u (pre @ [u])" and e: "is_edge G u y"
    and pw: "path_weight G q = path_weight G (pre @ [u]) + wt G u y + path_weight G (y # post)"
    unfolding q by simp_all
  from u obtain du where du: "dists sd u = Some du" by (auto simp: F_def)
  from is_edge_wt[OF e] obtain ed where ed: "map_of (adj G u) y = Some ed" "wt G u y = weight ed"
    by blast
  from scannedD[OF sc ed(1)] du obtain sy where
    sy: "seen sd y = Some sy" "sy \<le> du + weight ed" by auto
  from side_inv_opt[OF inv du wu] have "du \<le> path_weight G (pre @ [u])" .
  moreover have "0 \<le> path_weight G (y # post)" using nn by (rule nonneg_path_weight)
  ultimately have le: "sy \<le> path_weight G q" using sy(2) ed(2) pw by simp
  from y have dy: "dists sd y = None" by (simp add: F_def)
  from side_inv_queued[OF inv sy(1) dy] obtain c where "(sy, c, y) \<in> set (fringe sd)" by blast
  with dy sy(1) le show ?thesis by blast
qed

subsection \<open>One search: dropping, settling, relaxing\<close>

lemma in_remove1_other: "a \<in> set xs \<Longrightarrow> a \<noteq> m \<Longrightarrow> a \<in> set (remove1 m xs)"
  by simp

lemma in_remove1D: "a \<in> set (remove1 m xs) \<Longrightarrow> a \<in> set xs"
  using set_remove1_subset[of m xs] by blast

lemma side_drop_stale:
  assumes inv: "side_inv G r sd" and m: "dists sd (snd (snd m)) \<noteq> None"
  shows "side_inv G r (sd\<lparr>fringe := remove1 m (fringe sd)\<rparr>)"
proof (rule side_invI)
  let ?sd = "sd\<lparr>fringe := remove1 m (fringe sd)\<rparr>"
  show "seen ?sd v = Some d" if "dists ?sd v = Some d" for v d
    using that side_inv_seen[OF inv] by simp
  show "\<exists>p. paths ?sd v = Some p \<and> walk G r v p \<and> path_weight G p = d" if "seen ?sd v = Some d" for v d
    using that side_inv_path[OF inv] by simp
  show "d \<le> path_weight G q" if "dists ?sd v = Some d" "walk G r v q" for v d q
    using that side_inv_opt[OF inv] by simp
  show "\<exists>c. (d, c, v) \<in> set (fringe ?sd)" if "seen ?sd v = Some d" "dists ?sd v = None" for v d
  proof -
    from that side_inv_queued[OF inv, of v d] obtain c where c: "(d, c, v) \<in> set (fringe sd)"
      by auto
    have "(d, c, v) \<noteq> m" using m that(2) by auto
    with c show ?thesis by (auto intro: in_remove1_other)
  qed
  show "\<exists>d. seen ?sd x = Some d \<and> d \<le> k" if "(k, c, x) \<in> set (fringe ?sd)" for k c x
    using that side_inv_entry[OF inv, of k c x] by (auto dest: in_remove1D)
  show "d \<le> k" if "dists ?sd v = Some d" "(k, c, x) \<in> set (fringe ?sd)" for v d k c x
    using that side_inv_mono[OF inv, of v d k c x] by (auto dest: in_remove1D)
  show "seen ?sd r = Some 0" using side_inv_root[OF inv] by simp
  show "dists ?sd r \<noteq> None" if "dists ?sd v \<noteq> None" for v
    using that side_inv_root_first[OF inv, of v] by simp
  show "x = r" if "\<forall>v. dists ?sd v = None" "seen ?sd x \<noteq> None" for x
    using that side_inv_fresh[OF inv, of x] by simp
qed

lemma side_settle:
  assumes inv: "side_inv G r sd" and nn: "nonneg G"
    and sc: "\<And>u. dists sd u \<noteq> None \<Longrightarrow> scanned G sd u"
    and m: "(dist, c, v) \<in> set (fringe sd)"
    and least: "\<And>e. e \<in> set (fringe sd) \<Longrightarrow> dist \<le> fst e"
    and v: "dists sd v = None"
  shows "seen sd v = Some dist"
    and "side_inv G r (sd\<lparr>fringe := remove1 (dist, c, v) (fringe sd),
                           dists := (dists sd)(v \<mapsto> dist)\<rparr>)"
    and "\<And>u d. dists sd u = Some d \<Longrightarrow> d \<le> dist"
proof -
  from side_inv_entry[OF inv m] obtain d' where d': "seen sd v = Some d'" "d' \<le> dist" by blast
  from side_inv_queued[OF inv d'(1) v] obtain c' where "(d', c', v) \<in> set (fringe sd)" by blast
  from least[OF this] d'(2) have "d' = dist" by simp
  with d' show sv: "seen sd v = Some dist" by simp
  show M: "\<And>u d. dists sd u = Some d \<Longrightarrow> d \<le> dist"
    using side_inv_mono[OF inv _ m] by blast
  have opt: "dist \<le> path_weight G q" if w: "walk G r v q" for q
  proof (cases "\<forall>u. dists sd u = None")
    case True
    from side_inv_fresh[OF inv True, of v] sv have "v = r" by simp
    with sv side_inv_root[OF inv] have "dist = 0" by simp
    then show ?thesis using nonneg_path_weight[OF nn, of q] by simp
  next
    case False
    then have r: "dists sd r \<noteq> None" using side_inv_root_first[OF inv] by blast
    from leaves_settled[OF inv nn sc r w v] obtain y sy cy where
      "(sy, cy, y) \<in> set (fringe sd)" "sy \<le> path_weight G q" by blast
    with least[of "(sy, cy, y)"] show ?thesis by simp
  qed
  let ?sd = "sd\<lparr>fringe := remove1 (dist, c, v) (fringe sd), dists := (dists sd)(v \<mapsto> dist)\<rparr>"
  show "side_inv G r ?sd"
  proof (rule side_invI)
    show "seen ?sd u = Some d" if "dists ?sd u = Some d" for u d
      using that side_inv_seen[OF inv, of u d] sv by (cases "u = v") simp_all
    show "\<exists>p. paths ?sd u = Some p \<and> walk G r u p \<and> path_weight G p = d"
      if "seen ?sd u = Some d" for u d
      using that side_inv_path[OF inv] by simp
    show "d \<le> path_weight G q" if "dists ?sd u = Some d" "walk G r u q" for u d q
      using that side_inv_opt[OF inv, of u d q] opt[of q] by (cases "u = v") simp_all
    show "\<exists>c. (d, c, u) \<in> set (fringe ?sd)" if "seen ?sd u = Some d" "dists ?sd u = None" for u d
    proof -
      from that have uv: "u \<noteq> v" and du: "dists sd u = None" by (auto split: if_splits)
      from that side_inv_queued[OF inv _ du, of d] obtain cu where
        "(d, cu, u) \<in> set (fringe sd)" by auto
      with uv have "(d, cu, u) \<in> set (remove1 (dist, c, v) (fringe sd))"
        by (intro in_remove1_other) auto
      then show ?thesis by auto
    qed
    show "\<exists>d. seen ?sd x = Some d \<and> d \<le> k" if "(k, cx, x) \<in> set (fringe ?sd)" for k cx x
      using that side_inv_entry[OF inv, of k cx x] by (auto dest: in_remove1D)
    show "d \<le> k" if "dists ?sd u = Some d" "(k, cx, x) \<in> set (fringe ?sd)" for u d k cx x
    proof -
      from that(2) have k: "(k, cx, x) \<in> set (fringe sd)" by (auto dest: in_remove1D)
      show ?thesis
      proof (cases "u = v")
        case True
        with that(1) least[OF k] show ?thesis by simp
      next
        case False
        with that(1) side_inv_mono[OF inv _ k, of u d] show ?thesis by simp
      qed
    qed
    show "seen ?sd r = Some 0" using side_inv_root[OF inv] by simp
    show "dists ?sd r \<noteq> None" if "dists ?sd u \<noteq> None" for u
    proof (cases "\<forall>u. dists sd u = None")
      case True
      from side_inv_fresh[OF inv True, of v] sv have "v = r" by simp
      then show ?thesis by simp
    next
      case False
      then show ?thesis using side_inv_root_first[OF inv] by auto
    qed
    show "x = r" if "\<forall>u. dists ?sd u = None" "seen ?sd x \<noteq> None" for x
      using that(1) by (auto dest: spec[of _ v])
  qed
qed

lemma edge_weight_nonneg:
  "nonneg G \<Longrightarrow> map_of (adj G v) w = Some e \<Longrightarrow> 0 \<le> weight e"
  by (auto simp: nonneg_def list_all_iff dest!: adj_in)

lemma side_record:
  assumes inv: "side_inv G r sd" and nn: "nonneg G"
    and v: "dists sd v = Some dv" and M: "\<And>u d. dists sd u = Some d \<Longrightarrow> d \<le> dv"
    and e: "map_of (adj G v) w = Some e" and w: "dists sd w = None"
    and imp: "\<And>sw. seen sd w = Some sw \<Longrightarrow> dv + weight e < sw"
    and pv: "paths sd v = Some pv"
  shows "side_inv G r (sd\<lparr>paths := (paths sd)(w \<mapsto> pv @ [w]),
                           fringe := heappush (fringe sd) (dv + weight e, c, w),
                           seen := (seen sd)(w \<mapsto> dv + weight e)\<rparr>)"
proof (rule side_invI)
  let ?l = "dv + weight e"
  let ?sd = "sd\<lparr>paths := (paths sd)(w \<mapsto> pv @ [w]),
                fringe := heappush (fringe sd) (?l, c, w),
                seen := (seen sd)(w \<mapsto> ?l)\<rparr>"
  have fr: "set (fringe ?sd) = insert (?l, c, w) (set (fringe sd))"
    by (simp add: heappush_def)
  have edge: "is_edge G v w" "wt G v w = weight e" using e by (simp_all add: is_edge_def wt_def)
  from side_inv_path[OF inv side_inv_seen[OF inv v]] pv
  have wv: "walk G r v pv" "path_weight G pv = dv" by auto
  show "seen ?sd u = Some d" if "dists ?sd u = Some d" for u d
    using that side_inv_seen[OF inv, of u d] w by (cases "u = w") simp_all
  show "\<exists>p. paths ?sd u = Some p \<and> walk G r u p \<and> path_weight G p = d"
    if "seen ?sd u = Some d" for u d
  proof (cases "u = w")
    case True
    with that walk_snoc[OF wv(1) edge(1)] wv(2) edge(2) show ?thesis by simp
  next
    case False
    with that side_inv_path[OF inv, of u d] show ?thesis by simp
  qed
  show "d \<le> path_weight G q" if "dists ?sd u = Some d" "walk G r u q" for u d q
    using that side_inv_opt[OF inv] by simp
  show "\<exists>c'. (d, c', u) \<in> set (fringe ?sd)" if "seen ?sd u = Some d" "dists ?sd u = None" for u d
  proof (cases "u = w")
    case True
    with that fr show ?thesis by auto
  next
    case False
    with that side_inv_queued[OF inv, of u d] fr show ?thesis by auto
  qed
  show "\<exists>d. seen ?sd x = Some d \<and> d \<le> k" if "(k, cx, x) \<in> set (fringe ?sd)" for k cx x
  proof (cases "(k, cx, x) = (?l, c, w)")
    case True
    then show ?thesis by simp
  next
    case False
    with that fr have old: "(k, cx, x) \<in> set (fringe sd)" by auto
    from side_inv_entry[OF inv old] obtain d where d: "seen sd x = Some d" "d \<le> k" by blast
    show ?thesis
    proof (cases "x = w")
      case True
      with d imp[of d] show ?thesis by simp
    next
      case False
      with d show ?thesis by simp
    qed
  qed
  show "d \<le> k" if "dists ?sd u = Some d" "(k, cx, x) \<in> set (fringe ?sd)" for u d k cx x
  proof (cases "(k, cx, x) = (?l, c, w)")
    case True
    with that(1) M[of u d] edge_weight_nonneg[OF nn e] show ?thesis by simp
  next
    case False
    with that fr side_inv_mono[OF inv, of u d k cx x] show ?thesis by auto
  qed
  have "dists sd r \<noteq> None" using side_inv_root_first[OF inv, of v] v by simp
  with w have "r \<noteq> w" by auto
  then show "seen ?sd r = Some 0" using side_inv_root[OF inv] by simp
  show "dists ?sd r \<noteq> None" if "dists ?sd u \<noteq> None" for u
    using that side_inv_root_first[OF inv, of u] by simp
  show "x = r" if "\<forall>u. dists ?sd u = None" "seen ?sd x \<noteq> None" for x
    using that(1) v by (auto dest: spec[of _ v])
qed

lemma scanned_mono:
  assumes "scanned G sd u" "dists sd' = dists sd"
    and "\<And>x sx. seen sd x = Some sx \<Longrightarrow> \<exists>sx'. seen sd' x = Some sx' \<and> sx' \<le> sx"
  shows "scanned G sd' u"
  unfolding scanned_def
proof (intro allI impI)
  fix w e
  assume "map_of (adj G u) w = Some e"
  from scannedD[OF assms(1) this] obtain dv sw where
    a: "dists sd u = Some dv" "seen sd w = Some sw" "sw \<le> dv + weight e" by blast
  from assms(3)[OF a(2)] obtain sw' where "seen sd' w = Some sw'" "sw' \<le> sw" by blast
  with a assms(2) show "\<exists>dv sw. dists sd' u = Some dv \<and> seen sd' w = Some sw \<and> sw \<le> dv + weight e"
    by auto
qed

subsection \<open>Both searches\<close>

definition root :: "node \<Rightarrow> node \<Rightarrow> bidi \<Rightarrow> node" where
  "root s t st = (if backward st then t else s)"

definition oroot :: "node \<Rightarrow> node \<Rightarrow> bidi \<Rightarrow> node" where
  "oroot s t st = (if backward st then s else t)"

text \<open>
  A node seen from both ends has been weighed against the best path found so far; the
  best path found so far is a walk from the source to the target of the recorded weight;
  no node is settled from both ends.
\<close>

definition joined :: "bidi \<Rightarrow> bool" where
  "joined st \<longleftrightarrow>
     (\<forall>w a b. seen (fwd st) w = Some a \<longrightarrow> seen (bwd st) w = Some b \<longrightarrow>
        (\<exists>fd fp. final st = Some (fd, fp) \<and> fd \<le> a + b))"

definition final_ok :: "graph \<Rightarrow> node \<Rightarrow> node \<Rightarrow> bidi \<Rightarrow> bool" where
  "final_ok G s t st \<longleftrightarrow>
     (\<forall>fd fp. final st = Some (fd, fp) \<longrightarrow> walk G s t fp \<and> path_weight G fp = fd)"

definition apart :: "bidi \<Rightarrow> bool" where
  "apart st \<longleftrightarrow> (\<forall>v. dists (fwd st) v = None \<or> dists (bwd st) v = None)"

lemma sides_inv_iff:
  "side_inv G (root s t st) (this_side st) \<and> side_inv G (oroot s t st) (other_side st)
   \<longleftrightarrow> side_inv G s (fwd st) \<and> side_inv G t (bwd st)"
  by (auto simp: root_def oroot_def this_side_def other_side_def)

lemma joined_this:
  "joined st \<longleftrightarrow>
     (\<forall>w a b. seen (this_side st) w = Some a \<longrightarrow> seen (other_side st) w = Some b \<longrightarrow>
        (\<exists>fd fp. final st = Some (fd, fp) \<and> fd \<le> a + b))"
proof (cases "backward st")
  case True
  have "(\<forall>w a b. seen (fwd st) w = Some a \<longrightarrow> seen (bwd st) w = Some b \<longrightarrow>
        (\<exists>fd fp. final st = Some (fd, fp) \<and> fd \<le> a + b))
     \<longleftrightarrow> (\<forall>w b a. seen (bwd st) w = Some b \<longrightarrow> seen (fwd st) w = Some a \<longrightarrow>
        (\<exists>fd fp. final st = Some (fd, fp) \<and> fd \<le> b + a))"
    by (metis add.commute)
  with True show ?thesis by (simp add: joined_def this_side_def other_side_def)
next
  case False
  then show ?thesis by (simp add: joined_def this_side_def other_side_def)
qed

lemma apart_this:
  "apart st \<longleftrightarrow> (\<forall>v. dists (this_side st) v = None \<or> dists (other_side st) v = None)"
proof (cases "backward st")
  case True
  then show ?thesis unfolding apart_def this_side_def other_side_def
    by (simp add: disj_commute)
next
  case False
  then show ?thesis unfolding apart_def this_side_def other_side_def by simp
qed

lemma meet_ok:
  assumes wf: "wf_graph G"
    and f: "side_inv G s (fwd st)" and b: "side_inv G t (bwd st)"
    and fin: "final_ok G s t st"
    and j: "\<And>x a b. x \<noteq> w \<Longrightarrow> seen (fwd st) x = Some a \<Longrightarrow> seen (bwd st) x = Some b \<Longrightarrow>
              \<exists>fd fp. final st = Some (fd, fp) \<and> fd \<le> a + b"
  shows "\<exists>st'. meet w st = Inr st' \<and> fwd st' = fwd st \<and> bwd st' = bwd st
           \<and> backward st' = backward st \<and> joined st' \<and> final_ok G s t st'"
proof (cases "seen (fwd st) w")
  case None
  then have "meet w st = Inr st" by (simp add: meet_def)
  moreover have "joined st" unfolding joined_def using j None by (metis option.distinct(1))
  ultimately show ?thesis using fin by simp
next
  case (Some s0)
  note s0 = Some
  show ?thesis
  proof (cases "seen (bwd st) w")
    case None
    then have "meet w st = Inr st" by (simp add: meet_def s0)
    moreover have "joined st" unfolding joined_def using j None by (metis option.distinct(1))
    ultimately show ?thesis using fin by simp
  next
    case (Some s1)
    from side_inv_path[OF f s0] obtain p0 where
      p0: "paths (fwd st) w = Some p0" "walk G s w p0" "path_weight G p0 = s0" by blast
    from side_inv_path[OF b Some] obtain p1 where
      p1: "paths (bwd st) w = Some p1" "walk G t w p1" "path_weight G p1 = s1" by blast
    show ?thesis
    proof (cases "case final st of None \<Rightarrow> True | Some (fd, fp) \<Rightarrow> fd > s0 + s1")
      case True
      define st' where "st' = st\<lparr>final := Some (s0 + s1, p0 @ tl (rev p1))\<rparr>"
      have m: "meet w st = Inr st'"
        using True s0 Some p0(1) p1(1) by (simp add: meet_def st'_def)
      have fo: "final_ok G s t st'"
        using walk_join[OF wf p0(2) p1(2)] p0(3) p1(3) by (simp add: final_ok_def st'_def)
      have jo: "joined st'"
        unfolding joined_def
      proof (intro allI impI)
        fix x a c
        assume a: "seen (fwd st') x = Some a" and c: "seen (bwd st') x = Some c"
        show "\<exists>fd fp. final st' = Some (fd, fp) \<and> fd \<le> a + c"
        proof (cases "x = w")
          case True
          with a c s0 Some show ?thesis by (simp add: st'_def)
        next
          case False
          from j[OF False, of a c] a c obtain fd fp where
            o: "final st = Some (fd, fp)" "fd \<le> a + c" by (auto simp: st'_def)
          with True have "s0 + s1 < fd" by simp
          with o show ?thesis by (simp add: st'_def)
        qed
      qed
      show ?thesis using m fo jo by (simp add: st'_def)
    next
      case False
      then obtain fd fp where o: "final st = Some (fd, fp)" "fd \<le> s0 + s1"
        by (auto split: option.splits)
      have m: "meet w st = Inr st" using False s0 Some by (simp add: meet_def)
      have "joined st"
        unfolding joined_def
      proof (intro allI impI)
        fix x a c
        assume a: "seen (fwd st) x = Some a" and c: "seen (bwd st) x = Some c"
        show "\<exists>fd fp. final st = Some (fd, fp) \<and> fd \<le> a + c"
        proof (cases "x = w")
          case True
          with a c s0 Some o show ?thesis by simp
        next
          case False
          from j[OF False a c] show ?thesis .
        qed
      qed
      then show ?thesis using m fin by simp
    qed
  qed
qed

text \<open>
  What holds while the links of the node \<open>v\<close> just settled are relaxed; \<open>P\<close> are the
  neighbours done so far.
\<close>

definition relaxing :: "graph \<Rightarrow> node \<Rightarrow> node \<Rightarrow> node \<Rightarrow> node set \<Rightarrow> bidi \<Rightarrow> bool" where
  "relaxing G s t v P st \<longleftrightarrow>
     side_inv G (root s t st) (this_side st) \<and> side_inv G (oroot s t st) (other_side st) \<and>
     (\<forall>u. dists (other_side st) u \<noteq> None \<longrightarrow> scanned G (other_side st) u) \<and>
     (\<forall>u. dists (this_side st) u \<noteq> None \<longrightarrow> u \<noteq> v \<longrightarrow> scanned G (this_side st) u) \<and>
     (\<exists>dv. dists (this_side st) v = Some dv \<and>
           (\<forall>u d. dists (this_side st) u = Some d \<longrightarrow> d \<le> dv) \<and>
           (\<forall>w e. w \<in> P \<longrightarrow> map_of (adj G v) w = Some e \<longrightarrow>
                  (\<exists>sw. seen (this_side st) w = Some sw \<and> sw \<le> dv + weight e))) \<and>
     joined st \<and> final_ok G s t st \<and> apart st"

lemma relaxingI:
  assumes "side_inv G (root s t st) (this_side st)" "side_inv G (oroot s t st) (other_side st)"
    and "\<And>u. dists (other_side st) u \<noteq> None \<Longrightarrow> scanned G (other_side st) u"
    and "\<And>u. dists (this_side st) u \<noteq> None \<Longrightarrow> u \<noteq> v \<Longrightarrow> scanned G (this_side st) u"
    and "dists (this_side st) v = Some dv"
    and "\<And>u d. dists (this_side st) u = Some d \<Longrightarrow> d \<le> dv"
    and "\<And>w e. w \<in> P \<Longrightarrow> map_of (adj G v) w = Some e \<Longrightarrow>
           \<exists>sw. seen (this_side st) w = Some sw \<and> sw \<le> dv + weight e"
    and "joined st" "final_ok G s t st" "apart st"
  shows "relaxing G s t v P st"
  unfolding relaxing_def
  apply (intro conjI)
  subgoal using assms(1) .
  subgoal using assms(2) .
  subgoal using assms(3) by blast
  subgoal using assms(4) by blast
  subgoal using assms(5,6,7) by blast
  subgoal using assms(8) .
  subgoal using assms(9) .
  subgoal using assms(10) .
  done

lemma relaxingD:
  assumes "relaxing G s t v P st"
  shows "side_inv G (root s t st) (this_side st)" "side_inv G (oroot s t st) (other_side st)"
    "\<And>u. dists (other_side st) u \<noteq> None \<Longrightarrow> scanned G (other_side st) u"
    "\<And>u. dists (this_side st) u \<noteq> None \<Longrightarrow> u \<noteq> v \<Longrightarrow> scanned G (this_side st) u"
    "joined st" "final_ok G s t st" "apart st"
  using assms unfolding relaxing_def by simp_all

lemma relaxing_dv:
  assumes "relaxing G s t v P st"
  shows "\<exists>dv. dists (this_side st) v = Some dv \<and>
           (\<forall>u d. dists (this_side st) u = Some d \<longrightarrow> d \<le> dv) \<and>
           (\<forall>w e. w \<in> P \<longrightarrow> map_of (adj G v) w = Some e \<longrightarrow>
                  (\<exists>sw. seen (this_side st) w = Some sw \<and> sw \<le> dv + weight e))"
  using assms unfolding relaxing_def by blast

lemma record_seen_fields:
  "this_side (record_seen w l p st) =
     (this_side st)\<lparr>paths := (paths (this_side st))(w \<mapsto> p),
                     fringe := heappush (fringe (this_side st)) (l, cnt st, w),
                     seen := (seen (this_side st))(w \<mapsto> l)\<rparr>"
  "other_side (record_seen w l p st) = other_side st"
  "final (record_seen w l p st) = final st"
  "backward (record_seen w l p st) = backward st"
  by (simp_all add: record_seen_def)

lemma same_sides:
  assumes "fwd st' = fwd st" "bwd st' = bwd st" "backward st' = backward st"
  shows "this_side st' = this_side st" "other_side st' = other_side st"
    "root s t st' = root s t st" "oroot s t st' = oroot s t st"
    "apart st' = apart st"
  using assms by (simp_all add: this_side_def other_side_def root_def oroot_def apart_def)

lemma root_backward:
  "backward st' = backward st \<Longrightarrow> root s t st' = root s t st"
  "backward st' = backward st \<Longrightarrow> oroot s t st' = oroot s t st"
  by (simp_all add: root_def oroot_def)

lemma relax_step:
  assumes wf: "wf_graph G" and nn: "nonneg G"
    and R: "relaxing G s t v P st" and mem: "(w, e) \<in> set (adj G v)"
  shows "\<exists>st'. relax v (w, e) st = Inr st' \<and> relaxing G s t v (insert w P) st'"
proof -
  from mem wf have e: "map_of (adj G v) w = Some e" by (simp add: wf_adj_mem)
  note ti = relaxingD(1)[OF R] and oi = relaxingD(2)[OF R] and osc = relaxingD(3)[OF R]
    and tsc = relaxingD(4)[OF R] and jo = relaxingD(5)[OF R] and fo = relaxingD(6)[OF R]
    and ap = relaxingD(7)[OF R]
  from relaxing_dv[OF R] obtain dv where
    dv: "dists (this_side st) v = Some dv"
    and M': "\<forall>u d. dists (this_side st) u = Some d \<longrightarrow> d \<le> dv"
    and P': "\<forall>w e. w \<in> P \<longrightarrow> map_of (adj G v) w = Some e \<longrightarrow>
           (\<exists>sw. seen (this_side st) w = Some sw \<and> sw \<le> dv + weight e)"
    by blast
  have M: "\<And>u d. dists (this_side st) u = Some d \<Longrightarrow> d \<le> dv" using M' by blast
  have P: "\<And>w e. w \<in> P \<Longrightarrow> map_of (adj G v) w = Some e \<Longrightarrow>
           \<exists>sw. seen (this_side st) w = Some sw \<and> sw \<le> dv + weight e" using P' by blast
  let ?l = "dv + weight e"
  from side_inv_path[OF ti side_inv_seen[OF ti dv]] obtain pv where
    pv: "paths (this_side st) v = Some pv" "walk G (root s t st) v pv" "path_weight G pv = dv"
    by blast
  have edge: "is_edge G v w" "wt G v w = weight e" using e by (simp_all add: is_edge_def wt_def)
  from walk_snoc[OF pv(2) edge(1)] pv(3) edge(2)
  have ww: "walk G (root s t st) w (pv @ [w])" "path_weight G (pv @ [w]) = ?l" by simp_all
  have keep: "relaxing G s t v (insert w P) st" if "seen (this_side st) w = Some sw" "sw \<le> ?l" for sw
  proof (rule relaxingI[where dv = dv])
    show "\<exists>sw. seen (this_side st) w' = Some sw \<and> sw \<le> dv + weight e'"
      if "w' \<in> insert w P" "map_of (adj G v) w' = Some e'" for w' e'
    proof (cases "w' = w")
      case True
      with that(2) e have "e' = e" by simp
      with True \<open>seen (this_side st) w = Some sw\<close> \<open>sw \<le> ?l\<close> show ?thesis by simp
    next
      case False
      with that P show ?thesis by simp
    qed
  qed (use ti oi osc tsc dv M jo fo ap in auto)
  show ?thesis
  proof (cases "dists (this_side st) w")
    case (Some dw)
    from side_inv_opt[OF ti Some ww(1)] ww(2) have le: "dw \<le> ?l" by simp
    then have "relax v (w, e) st = Inr st" using dv Some by (simp add: relax_def)
    moreover have "relaxing G s t v (insert w P) st"
      using keep[OF side_inv_seen[OF ti Some] le] .
    ultimately show ?thesis by blast
  next
    case None
    show ?thesis
    proof (cases "case seen (this_side st) w of None \<Rightarrow> True | Some sw \<Rightarrow> ?l < sw")
      case False
      then obtain sw where sw: "seen (this_side st) w = Some sw" "sw \<le> ?l"
        by (auto split: option.splits)
      have "relax v (w, e) st = Inr st" using dv None False by (simp add: relax_def)
      with keep[OF sw] show ?thesis by blast
    next
      case True
      then have imp: "\<And>sw. seen (this_side st) w = Some sw \<Longrightarrow> ?l < sw" by auto
      define st1 where "st1 = record_seen w ?l (pv @ [w]) st"
      have r: "relax v (w, e) st = meet w st1"
        using dv None True pv(1) by (simp add: relax_def st1_def)
      note f1 = record_seen_fields[of w ?l "pv @ [w]" st, folded st1_def]
      have ti1: "side_inv G (root s t st1) (this_side st1)"
        unfolding f1(1) root_backward(1)[OF f1(4)]
        by (rule side_record[OF ti nn dv M e None imp pv(1)])
      have oi1: "side_inv G (oroot s t st1) (other_side st1)"
        unfolding f1(2) root_backward(2)[OF f1(4)] by (rule oi)
      from ti1 oi1 have fb1: "side_inv G s (fwd st1)" "side_inv G t (bwd st1)"
        using sides_inv_iff[of G s t st1] by simp_all
      have fo1: "final_ok G s t st1" using fo by (simp add: final_ok_def f1(3))
      have seen1: "seen (this_side st1) x = (if x = w then Some ?l else seen (this_side st) x)" for x
        by (simp add: f1(1))
      have j1: "\<exists>fd fp. final st1 = Some (fd, fp) \<and> fd \<le> a + b"
        if "x \<noteq> w" "seen (fwd st1) x = Some a" "seen (bwd st1) x = Some b" for x a b
      proof -
        have "seen (fwd st1) x = seen (fwd st) x \<and> seen (bwd st1) x = seen (bwd st) x"
          using seen1[of x] f1(2) f1(4) that(1)
          by (cases "backward st") (simp_all add: this_side_def other_side_def)
        with that jo show ?thesis by (simp add: joined_def f1(3))
      qed
      have "\<exists>st'. meet w st1 = Inr st' \<and> fwd st' = fwd st1 \<and> bwd st' = bwd st1
           \<and> backward st' = backward st1 \<and> joined st' \<and> final_ok G s t st'"
      proof (rule meet_ok[OF wf fb1 fo1])
        fix x a b
        assume "x \<noteq> w" "seen (fwd st1) x = Some a" "seen (bwd st1) x = Some b"
        then show "\<exists>fd fp. final st1 = Some (fd, fp) \<and> fd \<le> a + b" by (rule j1)
      qed
      then obtain st' where
        m: "meet w st1 = Inr st'" and same: "fwd st' = fwd st1" "bwd st' = bwd st1"
          "backward st' = backward st1"
        and jo': "joined st'" and fo': "final_ok G s t st'" by blast
      note ss = same_sides[OF same]
      have mono: "\<exists>sx'. seen (this_side st') x = Some sx' \<and> sx' \<le> sx"
        if "seen (this_side st) x = Some sx" for x sx
        using that imp[of sx] by (cases "x = w") (simp_all add: ss(1) seen1)
      have d': "dists (this_side st') = dists (this_side st)"
        by (simp add: ss(1) f1(1))
      have "relaxing G s t v (insert w P) st'"
      proof (rule relaxingI[where dv = dv])
        show "side_inv G (root s t st') (this_side st')" using ti1 by (simp add: ss)
        show "side_inv G (oroot s t st') (other_side st')" using oi1 by (simp add: ss)
        show "scanned G (other_side st') u" if "dists (other_side st') u \<noteq> None" for u
          using that osc[of u] by (simp add: ss f1(2))
        show "scanned G (this_side st') u" if "dists (this_side st') u \<noteq> None" "u \<noteq> v" for u
        proof (rule scanned_mono[of G "this_side st" u])
          show "scanned G (this_side st) u" using that d' by (intro tsc) simp_all
          show "dists (this_side st') = dists (this_side st)" by (rule d')
          show "\<exists>sx'. seen (this_side st') x = Some sx' \<and> sx' \<le> sx"
            if "seen (this_side st) x = Some sx" for x sx
            using that by (rule mono)
        qed
        show "dists (this_side st') v = Some dv" using dv d' by simp
        show "d \<le> dv" if "dists (this_side st') u = Some d" for u d
          using that M d' by simp
        show "\<exists>sw. seen (this_side st') w' = Some sw \<and> sw \<le> dv + weight e'"
          if "w' \<in> insert w P" "map_of (adj G v) w' = Some e'" for w' e'
        proof (cases "w' = w")
          case True
          with that(2) e have "e' = e" by simp
          with True show ?thesis by (simp add: ss(1) seen1)
        next
          case False
          with that P[of w' e'] obtain sw where "seen (this_side st) w' = Some sw" "sw \<le> dv + weight e'"
            by auto
          with mono[of w' sw] show ?thesis by auto
        qed
        show "joined st'" by (rule jo')
        show "final_ok G s t st'" by (rule fo')
        show "apart st'"
        proof -
          have "other_side st' = other_side st" by (simp add: ss(2) f1(2))
          with ap d' show ?thesis unfolding apart_this by simp
        qed
      qed
      with r m show ?thesis by auto
    qed
  qed
qed

lemma relax_all_inv:
  assumes wf: "wf_graph G" and nn: "nonneg G"
    and "relaxing G s t v P st" "set nbs \<subseteq> set (adj G v)"
  shows "\<exists>st'. relax_all v nbs st = Inr st' \<and> relaxing G s t v (P \<union> fst ` set nbs) st'"
  using assms(3,4)
proof (induction nbs arbitrary: st P)
  case Nil
  then show ?case by simp
next
  case (Cons wd nbs)
  obtain w e where wd: "wd = (w, e)" by (cases wd)
  from Cons.prems(2) wd have "(w, e) \<in> set (adj G v)" by simp
  from relax_step[OF wf nn Cons.prems(1) this] obtain st1 where
    1: "relax v (w, e) st = Inr st1" "relaxing G s t v (insert w P) st1" by blast
  from Cons.IH[OF 1(2)] Cons.prems(2) obtain st' where
    2: "relax_all v nbs st1 = Inr st'" "relaxing G s t v (insert w P \<union> fst ` set nbs) st'" by auto
  from 1 2 wd show ?case by simp
qed

text \<open>What holds between two rounds of the loop, told from the side of one search.\<close>

definition oinv :: "graph \<Rightarrow> node \<Rightarrow> node \<Rightarrow> bidi \<Rightarrow> bool" where
  "oinv G s t st \<longleftrightarrow>
     side_inv G (root s t st) (this_side st) \<and> side_inv G (oroot s t st) (other_side st) \<and>
     (\<forall>u. dists (this_side st) u \<noteq> None \<longrightarrow> scanned G (this_side st) u) \<and>
     (\<forall>u. dists (other_side st) u \<noteq> None \<longrightarrow> scanned G (other_side st) u) \<and>
     joined st \<and> final_ok G s t st \<and> apart st"

lemma oinvD:
  assumes "oinv G s t st"
  shows "side_inv G (root s t st) (this_side st)" "side_inv G (oroot s t st) (other_side st)"
    "\<And>u. dists (this_side st) u \<noteq> None \<Longrightarrow> scanned G (this_side st) u"
    "\<And>u. dists (other_side st) u \<noteq> None \<Longrightarrow> scanned G (other_side st) u"
    "joined st" "final_ok G s t st" "apart st"
  using assms unfolding oinv_def by simp_all

lemma oinvI:
  assumes "side_inv G (root s t st) (this_side st)" "side_inv G (oroot s t st) (other_side st)"
    "\<And>u. dists (this_side st) u \<noteq> None \<Longrightarrow> scanned G (this_side st) u"
    "\<And>u. dists (other_side st) u \<noteq> None \<Longrightarrow> scanned G (other_side st) u"
    "joined st" "final_ok G s t st" "apart st"
  shows "oinv G s t st"
  unfolding oinv_def using assms by simp

lemma flip_fields [simp]:
  "fwd (flip st) = fwd st" "bwd (flip st) = bwd st" "backward (flip st) = (\<not> backward st)"
  "root s t (flip st) = oroot s t st" "oroot s t (flip st) = root s t st"
  by (simp_all add: flip_def root_def oroot_def)

lemma oinv_flip: "oinv G s t (flip st) = oinv G s t st"
  unfolding oinv_def
  by (auto simp: joined_def final_ok_def apart_def)

lemma scanned_cong:
  "dists sd' u = dists sd u \<Longrightarrow> seen sd' = seen sd \<Longrightarrow> scanned G sd' u = scanned G sd u"
  by (simp add: scanned_def)

lemma relaxing_done:
  assumes "relaxing G s t v P st" "fst ` set (adj G v) \<subseteq> P"
  shows "oinv G s t st"
proof -
  note d = relaxingD[OF assms(1)]
  show ?thesis
  proof (rule oinvI)
  from relaxing_dv[OF assms(1)] obtain dv where
    dv: "dists (this_side st) v = Some dv"
    and P: "\<forall>w e. w \<in> P \<longrightarrow> map_of (adj G v) w = Some e \<longrightarrow>
           (\<exists>sw. seen (this_side st) w = Some sw \<and> sw \<le> dv + weight e)" by blast
  show "scanned G (this_side st) u" if "dists (this_side st) u \<noteq> None" for u
  proof (cases "u = v")
    case False
    with that show ?thesis by (rule d(4))
  next
    case True
    have "\<exists>dv sw. dists (this_side st) v = Some dv \<and> seen (this_side st) w = Some sw
            \<and> sw \<le> dv + weight e" if "map_of (adj G v) w = Some e" for w e
    proof -
      from that have "(w, e) \<in> set (adj G v)" by (rule map_of_SomeD)
      then have "w \<in> P" using assms(2) by force
      with P that dv show ?thesis by blast
    qed
    then show ?thesis unfolding True scanned_def by blast
  qed
  next
    show "scanned G (other_side st) u" if "dists (other_side st) u \<noteq> None" for u
      using that by (rule d(3))
  qed (rule d(1) d(2) d(5) d(6) d(7))+
qed

text \<open>Taking the least entry off the heap of the search whose turn it is.\<close>

lemma popped_fields:
  assumes "popped st1 = (m, st2)"
  shows "this_side st2 = (this_side st1)\<lparr>fringe := snd (heappop (fringe (this_side st1)))\<rparr>"
    "other_side st2 = other_side st1" "backward st2 = backward st1" "final st2 = final st1"
    "m = fst (heappop (fringe (this_side st1)))"
  using assms by (auto simp: popped_def split: prod.splits)

lemma settle_fields:
  "this_side (settle v dist st) = (this_side st)\<lparr>dists := (dists (this_side st))(v \<mapsto> dist)\<rparr>"
  "other_side (settle v dist st) = other_side st" "backward (settle v dist st) = backward st"
  "final (settle v dist st) = final st"
  by (simp_all add: settle_def)

lemma joined_cong:
  assumes "seen (this_side st') = seen (this_side st)" "seen (other_side st') = seen (other_side st)"
    "final st' = final st"
  shows "joined st' = joined st"
  unfolding joined_this using assms by simp

lemma final_ok_cong: "final st' = final st \<Longrightarrow> final_ok G s t st' = final_ok G s t st"
  by (simp add: final_ok_def)

lemma pop_stale:
  assumes inv: "oinv G s t st1" and ne: "fringe (this_side st1) \<noteq> []"
    and pop: "popped st1 = (m, st2)" and stale: "dists (this_side st2) (snd (snd m)) \<noteq> None"
  shows "oinv G s t st2"
proof -
  obtain m' h where hp: "heappop (fringe (this_side st1)) = (m', h)"
    by (cases "heappop (fringe (this_side st1))")
  note pf = popped_fields[OF pop, unfolded hp, simplified]
  note hf = heappop_facts[OF ne hp]
  note d = oinvD[OF inv]
  have m: "m = m'" using pf(5) by simp
  have ts: "this_side st2 = (this_side st1)\<lparr>fringe := remove1 m (fringe (this_side st1))\<rparr>"
    using pf(1) hf(2) m by simp
  have rt: "root s t st2 = root s t st1" "oroot s t st2 = oroot s t st1"
    using pf(3) by (simp_all add: root_def oroot_def)
  show ?thesis
  proof (rule oinvI)
    show "side_inv G (root s t st2) (this_side st2)"
      unfolding rt ts using stale by (intro side_drop_stale[OF d(1)]) (simp add: ts)
    show "side_inv G (oroot s t st2) (other_side st2)" unfolding rt pf(2) by (rule d(2))
    show "scanned G (this_side st2) u" if "dists (this_side st2) u \<noteq> None" for u
      using that d(3)[of u] scanned_cong[of "this_side st2" u "this_side st1" G]
      by (simp add: ts)
    show "scanned G (other_side st2) u" if "dists (other_side st2) u \<noteq> None" for u
      using that d(4)[of u] by (simp add: pf(2))
    show "joined st2" using d(5) joined_cong[of st2 st1] by (simp add: ts pf)
    show "final_ok G s t st2" using d(6) final_ok_cong[of st2 st1] by (simp add: pf)
    show "apart st2" using d(7) by (simp add: apart_this ts pf(2))
  qed
qed

lemma pop_settle:
  assumes wf: "wf_graph G" and nn: "nonneg G"
    and inv: "oinv G s t st1" and ne: "fringe (this_side st1) \<noteq> []"
    and pop: "popped st1 = (m, st2)" and fresh: "dists (this_side st2) (snd (snd m)) = None"
    and other: "dists (other_side st2) (snd (snd m)) = None"
  shows "relaxing G s t (snd (snd m)) {} (settle (snd (snd m)) (fst m) st2)"
proof -
  obtain dist c v where mm: "m = (dist, c, v)" by (cases m)
  obtain m' h where hp: "heappop (fringe (this_side st1)) = (m', h)"
    by (cases "heappop (fringe (this_side st1))")
  note pf = popped_fields[OF pop, unfolded hp, simplified]
  note hf = heappop_facts[OF ne hp]
  note d = oinvD[OF inv]
  have m: "m' = (dist, c, v)" using pf(5) mm by simp
  have min: "\<And>e. e \<in> set (fringe (this_side st1)) \<Longrightarrow> dist \<le> fst e"
    using heappop_min[OF ne hp] m by simp
  have mem: "(dist, c, v) \<in> set (fringe (this_side st1))" using hf(1) m by simp
  have v1: "dists (this_side st1) v = None" using fresh pf(1) mm by simp
  note ss = side_settle[OF d(1) nn d(3) mem min v1]
  define st3 where "st3 = settle v dist st2"
  note sf = settle_fields[of v dist st2, folded st3_def]
  have ts: "this_side st3 = (this_side st1)\<lparr>fringe := remove1 (dist, c, v) (fringe (this_side st1)),
                                dists := (dists (this_side st1))(v \<mapsto> dist)\<rparr>"
    using sf(1) pf(1) hf(2) m by simp
  have os: "other_side st3 = other_side st1" using sf(2) pf(2) by simp
  have rt: "root s t st3 = root s t st1" "oroot s t st3 = oroot s t st1"
    using pf(3) sf(3) by (simp_all add: root_def oroot_def)
  have "relaxing G s t v {} st3"
  proof (rule relaxingI[where dv = dist])
    show "side_inv G (root s t st3) (this_side st3)" unfolding rt ts by (rule ss(2))
    show "side_inv G (oroot s t st3) (other_side st3)" unfolding rt os by (rule d(2))
    show "scanned G (other_side st3) u" if "dists (other_side st3) u \<noteq> None" for u
      using that d(4)[of u] by (simp add: os)
    show "scanned G (this_side st3) u" if "dists (this_side st3) u \<noteq> None" "u \<noteq> v" for u
      using that d(3)[of u] scanned_cong[of "this_side st3" u "this_side st1" G]
      by (simp add: ts)
    show "dists (this_side st3) v = Some dist" by (simp add: ts)
    show "d \<le> dist" if "dists (this_side st3) u = Some d" for u d
      using that ss(3)[of u d] by (cases "u = v") (simp_all add: ts)
    show "joined st3" using d(5) joined_cong[of st3 st1] by (simp add: ts os sf pf)
    show "final_ok G s t st3" using d(6) final_ok_cong[of st3 st1] by (simp add: sf pf)
    show "apart st3"
      unfolding apart_this
    proof
      fix u
      show "dists (this_side st3) u = None \<or> dists (other_side st3) u = None"
      proof (cases "u = v")
        case True
        then show ?thesis using other pf(2) mm by (simp add: os)
      next
        case False
        then show ?thesis using d(7) by (simp add: apart_this ts os)
      qed
    qed
  qed simp
  then show ?thesis by (simp add: st3_def mm)
qed

text \<open>
  When the node taken off one heap is already settled by the other search, the best
  path found so far is no longer than any walk between the two starting nodes.
\<close>

lemma meet_bound:
  assumes wf: "wf_graph G" and nn: "nonneg G"
    and ti: "side_inv G r sd" and oi: "side_inv G r' od"
    and tsc: "\<And>u. dists sd u \<noteq> None \<Longrightarrow> scanned G sd u"
    and osc: "\<And>u. dists od u \<noteq> None \<Longrightarrow> scanned G od u"
    and rs: "dists sd r \<noteq> None" and rs': "dists od r' \<noteq> None"
    and disj: "\<And>u. dists sd u = None \<or> dists od u = None"
    and mem: "(dist, c, v) \<in> set (fringe sd)"
    and min: "\<And>e. e \<in> set (fringe sd) \<Longrightarrow> dist \<le> fst e"
    and b: "dists od v = Some b"
    and J: "\<And>x a b. seen sd x = Some a \<Longrightarrow> seen od x = Some b \<Longrightarrow> fd \<le> a + b"
    and q: "walk G r r' q"
  shows "fd \<le> path_weight G q"
proof -
  have v: "dists sd v = None" using disj[of v] b by simp
  from side_settle(1)[OF ti nn tsc mem min v] have sv: "seen sd v = Some dist" .
  from J[OF sv side_inv_seen[OF oi b]] have fdab: "fd \<le> dist + b" .
  define F where "F = {u. dists sd u \<noteq> None}"
  have "r' \<notin> F" using disj[of r'] rs' by (auto simp: F_def)
  with q rs have "linked G q" "q \<noteq> []" "hd q \<in> F" "last q \<notin> F"
    by (auto simp: walk_def F_def)
  from crossing[OF this] obtain pre u y post where
    qq: "q = pre @ u # y # post" and u: "u \<in> F" and y: "y \<notin> F" by blast
  from walk_split[OF q[unfolded qq]] have
    wu: "walk G r u (pre @ [u])" and e: "is_edge G u y" and wy: "walk G y r' (y # post)"
    and pw: "path_weight G q = path_weight G (pre @ [u]) + wt G u y + path_weight G (y # post)"
    unfolding qq by simp_all
  from u obtain du where du: "dists sd u = Some du" by (auto simp: F_def)
  from is_edge_wt[OF e] obtain ed where ed: "map_of (adj G u) y = Some ed" "wt G u y = weight ed"
    by blast
  from scannedD[OF tsc ed(1)] du obtain sy where
    sy: "seen sd y = Some sy" "sy \<le> du + weight ed" by auto
  from side_inv_opt[OF ti du wu] have "du \<le> path_weight G (pre @ [u])" .
  with sy(2) ed(2) have head: "sy \<le> path_weight G (pre @ [u]) + wt G u y" by simp
  have rv: "walk G r' y (rev (y # post))"
    "path_weight G (rev (y # post)) = path_weight G (y # post)"
    by (rule walk_rev[OF wf wy], rule path_weight_rev[OF wf])
  from y have dy: "dists sd y = None" by (simp add: F_def)
  show ?thesis
  proof (cases "dists od y")
    case (Some d)
    from side_inv_opt[OF oi Some rv(1)] rv(2) have "d \<le> path_weight G (y # post)" by simp
    moreover from J[OF sy(1) side_inv_seen[OF oi Some]] have "fd \<le> sy + d" .
    ultimately show ?thesis using head pw by simp
  next
    case None
    from side_inv_queued[OF ti sy(1) dy] obtain cy where "(sy, cy, y) \<in> set (fringe sd)" by blast
    from min[OF this] have a: "dist \<le> sy" by simp
    from leaves_settled[OF oi nn osc rs' rv(1) None] obtain y' sy' c' where
      "(sy', c', y') \<in> set (fringe od)" "sy' \<le> path_weight G (rev (y # post))" by blast
    with side_inv_mono[OF oi b] rv(2) have "b \<le> path_weight G (y # post)" by fastforce
    with a fdab head pw show ?thesis by simp
  qed
qed

lemma pop_meet:
  assumes wf: "wf_graph G" and nn: "nonneg G"
    and inv: "oinv G s t st1" and ne: "fringe (this_side st1) \<noteq> []"
    and pop: "popped st1 = (m, st2)"
    and other: "dists (other_side st2) (snd (snd m)) \<noteq> None"
    and fresh: "dists (this_side st2) (snd (snd m)) = None"
    and roots: "dists (this_side st1) (root s t st1) \<noteq> None"
      "dists (other_side st1) (oroot s t st1) \<noteq> None"
  shows "\<exists>fd fp. final st2 = Some (fd, fp) \<and> walk G s t fp \<and> path_weight G fp = fd
           \<and> (\<forall>q. walk G s t q \<longrightarrow> fd \<le> path_weight G q)"
proof -
  obtain dist c v where mm: "m = (dist, c, v)" by (cases m)
  obtain m' h where hp: "heappop (fringe (this_side st1)) = (m', h)"
    by (cases "heappop (fringe (this_side st1))")
  note pf = popped_fields[OF pop, unfolded hp, simplified]
  note hf = heappop_facts[OF ne hp]
  note d = oinvD[OF inv]
  have m: "m' = (dist, c, v)" using pf(5) mm by simp
  have min: "\<And>e. e \<in> set (fringe (this_side st1)) \<Longrightarrow> dist \<le> fst e"
    using heappop_min[OF ne hp] m by simp
  have mem: "(dist, c, v) \<in> set (fringe (this_side st1))" using hf(1) m by simp
  have v1: "dists (this_side st1) v = None" using fresh pf(1) mm by simp
  from other obtain b where b: "dists (other_side st1) v = Some b" using pf(2) mm by auto
  from side_settle(1)[OF d(1) nn d(3) mem min v1] have sv: "seen (this_side st1) v = Some dist" .
  from d(5) sv side_inv_seen[OF d(2) b] obtain fd fp where
    fin: "final st1 = Some (fd, fp)" "fd \<le> dist + b"
    unfolding joined_this by blast
  from d(6) fin(1) have fw: "walk G s t fp" "path_weight G fp = fd" by (auto simp: final_ok_def)
  have J: "fd \<le> a + c" if "seen (this_side st1) x = Some a" "seen (other_side st1) x = Some c"
    for x a c
    using d(5) that fin(1) unfolding joined_this by fastforce
  have disj: "dists (this_side st1) u = None \<or> dists (other_side st1) u = None" for u
    using d(7) by (simp add: apart_this)
  have "fd \<le> path_weight G q" if q: "walk G s t q" for q
  proof (cases "backward st1")
    case False
    then have "walk G (root s t st1) (oroot s t st1) q" using q by (simp add: root_def oroot_def)
    from meet_bound[OF wf nn d(1) d(2) d(3) d(4) roots disj mem min b J this] show ?thesis .
  next
    case True
    then have "walk G (root s t st1) (oroot s t st1) (rev q)"
      using walk_rev[OF wf q] by (simp add: root_def oroot_def)
    from meet_bound[OF wf nn d(1) d(2) d(3) d(4) roots disj mem min b J this]
    show ?thesis using path_weight_rev[OF wf, of q] by simp
  qed
  with fin(1) fw pf(4) show ?thesis by simp
qed

subsection \<open>The search loop\<close>

text \<open>
  The first round settles the source, the second the target; from then on both are
  settled.
\<close>

definition phase :: "node \<Rightarrow> node \<Rightarrow> bidi \<Rightarrow> bool" where
  "phase s t st \<longleftrightarrow>
     (backward st \<and> (\<forall>v. dists (fwd st) v = None) \<and> (\<forall>v. dists (bwd st) v = None)) \<or>
     (\<not> backward st \<and> dists (fwd st) s \<noteq> None \<and> (\<forall>v. dists (fwd st) v \<noteq> None \<longrightarrow> v = s) \<and>
        (\<forall>v. dists (bwd st) v = None)) \<or>
     (dists (fwd st) s \<noteq> None \<and> dists (bwd st) t \<noteq> None)"

definition dj_inv :: "graph \<Rightarrow> node \<Rightarrow> node \<Rightarrow> bidi \<Rightarrow> bool" where
  "dj_inv G s t st \<longleftrightarrow> s \<noteq> t \<and> oinv G s t st \<and> phase s t st"

lemma fwd_bwd_sides:
  "fwd st = (if backward st then other_side st else this_side st)"
  "bwd st = (if backward st then this_side st else other_side st)"
  by (simp_all add: this_side_def other_side_def)

lemma closed_when_drained:
  assumes inv: "side_inv G r sd" and nn: "nonneg G"
    and sc: "\<And>u. dists sd u \<noteq> None \<Longrightarrow> scanned G sd u"
    and empty: "fringe sd = []" and w: "walk G r x q"
  shows "dists sd x \<noteq> None"
proof
  assume x: "dists sd x = None"
  have r: "dists sd r \<noteq> None"
  proof
    assume "dists sd r = None"
    from side_inv_queued[OF inv side_inv_root[OF inv] this] empty show False by simp
  qed
  from leaves_settled[OF inv nn sc r w x] empty show False by auto
qed

lemma no_path:
  assumes wf: "wf_graph G" and nn: "nonneg G" and inv: "dj_inv G s t st"
    and empty: "fringe (fwd st) = [] \<or> fringe (bwd st) = []"
  shows "\<not> walk G s t q"
proof
  assume q: "walk G s t q"
  from inv have st: "s \<noteq> t" and o: "oinv G s t st" and ph: "phase s t st"
    by (simp_all add: dj_inv_def)
  from oinvD[OF o] have
    f: "side_inv G s (fwd st)" and b: "side_inv G t (bwd st)"
    and fs: "\<And>u. dists (fwd st) u \<noteq> None \<Longrightarrow> scanned G (fwd st) u"
    and bs: "\<And>u. dists (bwd st) u \<noteq> None \<Longrightarrow> scanned G (bwd st) u"
    and ap: "apart st"
    by (cases "backward st"; simp add: root_def oroot_def this_side_def other_side_def)+
  from empty show False
  proof
    assume e: "fringe (fwd st) = []"
    have s1: "walk G s s [s]" by (simp add: walk_def)
    from closed_when_drained[OF f nn fs e s1] have ds: "dists (fwd st) s \<noteq> None" .
    from closed_when_drained[OF f nn fs e q] have dt: "dists (fwd st) t \<noteq> None" .
    from ph ds dt st have "dists (bwd st) t \<noteq> None" by (auto simp: phase_def)
    with dt ap show False unfolding apart_def by (metis option.distinct(1))
  next
    assume e: "fringe (bwd st) = []"
    have t1: "walk G t t [t]" by (simp add: walk_def)
    from closed_when_drained[OF b nn bs e t1] have dt: "dists (bwd st) t \<noteq> None" .
    from closed_when_drained[OF b nn bs e walk_rev[OF wf q]] have ds: "dists (bwd st) s \<noteq> None" .
    from ph dt have "dists (fwd st) s \<noteq> None" by (auto simp: phase_def)
    with ds ap show False unfolding apart_def by (metis option.distinct(1))
  qed
qed

lemma initial_inv:
  assumes "s \<noteq> t"
  shows "dj_inv G s t
           \<lparr>fwd = \<lparr>dists = Map.empty, paths = [s \<mapsto> [s]],
                   fringe = [(0, 0, s)], seen = [s \<mapsto> 0]\<rparr>,
            bwd = \<lparr>dists = Map.empty, paths = [t \<mapsto> [t]],
                   fringe = [(0, 1, t)], seen = [t \<mapsto> 0]\<rparr>,
            cnt = 2, final = None, backward = True\<rparr>"
proof -
  have start: "side_inv G r \<lparr>dists = Map.empty, paths = [r \<mapsto> [r]],
                   fringe = [(0, c, r)], seen = [r \<mapsto> 0]\<rparr>" for r c
    by (rule side_invI) (auto simp: walk_def split: if_splits)
  show ?thesis
    unfolding dj_inv_def oinv_def
    using assms start[of t 1] start[of s 0]
    by (auto simp: root_def oroot_def this_side_def other_side_def joined_def final_ok_def
        apart_def phase_def split: if_splits)
qed


lemma phase_both:
  assumes "phase s t st" "dists (other_side st) x \<noteq> None"
  shows "dists (fwd st) s \<noteq> None \<and> dists (bwd st) t \<noteq> None"
proof (cases "backward st")
  case True
  with assms show ?thesis unfolding phase_def other_side_def by (metis (full_types))
next
  case False
  with assms show ?thesis unfolding phase_def other_side_def by (metis (full_types))
qed

lemma phase_meet:
  assumes st: "s \<noteq> t" and ph: "phase s t st"
    and inv: "side_inv G (oroot s t st) (other_side st)"
    and v: "dists (other_side st) v = None" "seen (other_side st) v \<noteq> None"
      "dists (this_side st) v \<noteq> None"
  shows "dists (fwd st) s \<noteq> None \<and> dists (bwd st) t \<noteq> None"
proof (cases "backward st")
  case True
  with ph v(3) show ?thesis unfolding phase_def this_side_def by (metis (full_types))
next
  case False
  show ?thesis
  proof (cases "\<forall>x. dists (bwd st) x = None")
    case True
    with False inv v(2) have "v = t"
      using side_inv_fresh[of G t "bwd st" v] by (simp add: oroot_def other_side_def)
    moreover from ph False True v(3) have "v = s"
      unfolding phase_def this_side_def by (metis (full_types))
    ultimately show ?thesis using st by simp
  next
    case F2: False
    with ph show ?thesis unfolding phase_def by (metis (full_types))
  qed
qed

lemma phase_mono:
  assumes "dists (fwd st) s \<noteq> None \<and> dists (bwd st) t \<noteq> None"
    and "\<And>x. dists (fwd st) x \<noteq> None \<Longrightarrow> dists (fwd st') x \<noteq> None"
    and "\<And>x. dists (bwd st) x \<noteq> None \<Longrightarrow> dists (bwd st') x \<noteq> None"
  shows "phase s t st'"
  using assms unfolding phase_def by blast

lemma phase_step:
  assumes st: "s \<noteq> t" and ph: "phase s t st"
    and inv: "side_inv G (oroot s t st) (other_side st)"
    and v: "seen (other_side st) v \<noteq> None"
    and b: "backward st' = (\<not> backward st)"
    and d: "dists (this_side st') = (dists (other_side st))(v \<mapsto> dist)"
      "dists (other_side st') = dists (this_side st)"
  shows "phase s t st'"
proof (cases "backward st")
  case True
  then have f: "dists (fwd st') = (dists (fwd st))(v \<mapsto> dist)" "dists (bwd st') = dists (bwd st)"
    using b d by (simp_all add: this_side_def other_side_def)
  show ?thesis
  proof (cases "\<forall>x. dists (fwd st) x = None")
    case T2: True
    with True inv v have "v = s"
      using side_inv_fresh[of G s "fwd st" v] by (simp add: oroot_def other_side_def)
    moreover from ph T2 have "\<forall>x. dists (bwd st) x = None" unfolding phase_def by (metis (full_types))
    ultimately show ?thesis using T2 True b f unfolding phase_def by simp
  next
    case F2: False
    with ph True have "dists (fwd st) s \<noteq> None \<and> dists (bwd st) t \<noteq> None"
      unfolding phase_def by (metis (full_types))
    then show ?thesis by (rule phase_mono) (simp_all add: f)
  qed
next
  case False
  then have f: "dists (bwd st') = (dists (bwd st))(v \<mapsto> dist)" "dists (fwd st') = dists (fwd st)"
    using b d by (simp_all add: this_side_def other_side_def)
  show ?thesis
  proof (cases "\<forall>x. dists (bwd st) x = None")
    case True
    with False inv v have "v = t"
      using side_inv_fresh[of G t "bwd st" v] by (simp add: oroot_def other_side_def)
    moreover from ph False have "dists (fwd st) s \<noteq> None" unfolding phase_def by (metis (full_types))
    ultimately show ?thesis using f unfolding phase_def by simp
  next
    case F2: False
    with ph have "dists (fwd st) s \<noteq> None \<and> dists (bwd st) t \<noteq> None"
      unfolding phase_def by (metis (full_types))
    then show ?thesis by (rule phase_mono) (simp_all add: f)
  qed
qed


lemma both_roots:
  assumes "dists (fwd st) s \<noteq> None \<and> dists (bwd st) t \<noteq> None"
  shows "dists (this_side st) (root s t st) \<noteq> None" "dists (other_side st) (oroot s t st) \<noteq> None"
  using assms by (simp_all add: root_def oroot_def this_side_def other_side_def)

lemma dj_step_inv:
  assumes wf: "wf_graph G" and nn: "nonneg G" and inv: "dj_inv G s t st"
    and ne: "fringe (fwd st) \<noteq> []" "fringe (bwd st) \<noteq> []"
  shows "(\<exists>st'. dj_step G st = Continue st' \<and> dj_inv G s t st') \<or>
         (\<exists>fd fp. dj_step G st = Return (Some (fd, fp)) \<and> walk G s t fp \<and> path_weight G fp = fd
            \<and> (\<forall>q. walk G s t q \<longrightarrow> fd \<le> path_weight G q))"
proof -
  from inv have st: "s \<noteq> t" and o: "oinv G s t st" and ph: "phase s t st"
    unfolding dj_inv_def by simp_all
  define st1 where "st1 = flip st"
  have o1: "oinv G s t st1" unfolding st1_def oinv_flip by (rule o)
  have sides: "this_side st1 = other_side st" "other_side st1 = this_side st"
    "backward st1 = (\<not> backward st)"
    unfolding st1_def by (simp_all add: flip_def this_side_def other_side_def)
  have rts: "root s t st1 = oroot s t st" unfolding st1_def by simp
  have ne1: "fringe (this_side st1) \<noteq> []"
    using ne unfolding sides by (simp add: other_side_def)
  obtain m st2 where pop: "popped st1 = (m, st2)" by (cases "popped st1")
  define v where "v = snd (snd m)"
  define dist where "dist = fst m"
  define st3 where "st3 = settle v dist st2"
  have stp: "dj_step G st =
     (if dists (this_side st2) v \<noteq> None then Continue st2
      else if dists (other_side st3) v \<noteq> None then Return (final st3)
      else (case relax_all v (adj G v) st3 of Inl e \<Rightarrow> Fail e | Inr st4 \<Rightarrow> Continue st4))"
    using pop unfolding dj_step_def st1_def v_def dist_def st3_def by (simp add: Let_def)
  obtain m' h where hp: "heappop (fringe (this_side st1)) = (m', h)"
    by (cases "heappop (fringe (this_side st1))")
  note pf = popped_fields[OF pop]
  note hf = heappop_facts[OF ne1 hp]
  note sf = settle_fields[of v dist st2, folded st3_def]
  note d1 = oinvD[OF o1]
  have "m \<in> set (fringe (this_side st1))" using hf(1) pf(5) hp by simp
  then have "(fst m, fst (snd m), v) \<in> set (fringe (this_side st1))" by (simp add: v_def)
  from side_inv_entry[OF d1(1) this] have sn: "seen (other_side st) v \<noteq> None"
    unfolding sides by blast
  have inv_o: "side_inv G (oroot s t st) (other_side st)" using d1(1) unfolding sides rts .
  have d2: "dists (this_side st2) = dists (other_side st)" "dists (other_side st2) = dists (this_side st)"
    using pf(1,2) unfolding sides by simp_all
  have b2: "backward st2 = (\<not> backward st)" using pf(3) sides by simp
  show ?thesis
  proof (cases "dists (this_side st2) v \<noteq> None")
    case True
    then have "dists (other_side st) v \<noteq> None" unfolding d2 .
    from phase_both[OF ph this]
    have "phase s t st2"
      by (rule phase_mono) (auto simp: fwd_bwd_sides b2 d2 split: if_splits)
    moreover have "oinv G s t st2"
      using o1 ne1 pop True unfolding v_def by (rule pop_stale)
    ultimately have "dj_inv G s t st2" using st unfolding dj_inv_def by simp
    with True stp show ?thesis by simp
  next
    case False
    then have fresh: "dists (this_side st2) v = None" by simp
    show ?thesis
    proof (cases "dists (other_side st3) v \<noteq> None")
      case True
      then have other: "dists (other_side st2) v \<noteq> None" unfolding sf by simp
      have "dists (fwd st) s \<noteq> None \<and> dists (bwd st) t \<noteq> None"
        using st ph inv_o fresh sn other unfolding d2 by (rule phase_meet)
      then have "dists (fwd st1) s \<noteq> None \<and> dists (bwd st1) t \<noteq> None"
        unfolding st1_def by simp
      note r = both_roots[OF this]
      have "\<exists>fd fp. final st2 = Some (fd, fp) \<and> walk G s t fp \<and> path_weight G fp = fd
           \<and> (\<forall>q. walk G s t q \<longrightarrow> fd \<le> path_weight G q)"
        using wf nn o1 ne1 pop other[unfolded v_def] fresh[unfolded v_def] r by (rule pop_meet)
      moreover have "dj_step G st = Return (final st2)" using stp fresh True sf(4) by simp
      ultimately show ?thesis by auto
    next
      case F2: False
      then have other: "dists (other_side st2) v = None" unfolding sf by simp
      have "relaxing G s t v {} st3"
        unfolding st3_def v_def dist_def
        using wf nn o1 ne1 pop fresh[unfolded v_def] other[unfolded v_def] by (rule pop_settle)
      from relax_all_inv[OF wf nn this, of "adj G v"] obtain st4 where
        r4: "relax_all v (adj G v) st3 = Inr st4"
        and rel: "relaxing G s t v ({} \<union> fst ` set (adj G v)) st4" by auto
      from rel have o4: "oinv G s t st4" by (rule relaxing_done) simp
      from relax_all_frame[OF r4] have fr: "dists (this_side st4) = dists (this_side st3)"
        "dists (other_side st4) = dists (other_side st3)" "backward st4 = backward st3" by simp_all
      have "phase s t st4"
        using st ph inv_o sn
      proof (rule phase_step)
        show "backward st4 = (\<not> backward st)" using fr(3) sf(3) b2 by simp
        show "dists (this_side st4) = (dists (other_side st))(v \<mapsto> dist)"
          unfolding fr sf using d2 by simp
        show "dists (other_side st4) = dists (this_side st)"
          unfolding fr sf using d2 by simp
      qed
      with o4 st have "dj_inv G s t st4" unfolding dj_inv_def by simp
      moreover have "dj_step G st = Continue st4" using stp fresh F2 r4 by simp
      ultimately show ?thesis by simp
    qed
  qed
qed


lemma dj_loop_correct:
  assumes "wf_graph G" "nonneg G" "dj_inv G s t st"
  shows "(\<exists>fd fp. dj_loop G st = Inr (fd, fp) \<and> walk G s t fp \<and> path_weight G fp = fd
            \<and> (\<forall>q. walk G s t q \<longrightarrow> fd \<le> path_weight G q))
       \<or> (dj_loop G st = Inl NetworkXNoPath \<and> (\<forall>q. \<not> walk G s t q))"
  using assms
proof (induction G st rule: dj_loop.induct)
  case (1 G st)
  show ?case
  proof (cases "fringe (fwd st) = [] \<or> fringe (bwd st) = []")
    case True
    then have "dj_loop G st = Inl NetworkXNoPath" by (subst dj_loop.simps) simp
    moreover have "\<not> walk G s t q" for q using "1.prems" True by (rule no_path)
    ultimately show ?thesis by simp
  next
    case False
    then have ne: "fringe (fwd st) \<noteq> []" "fringe (bwd st) \<noteq> []" by simp_all
    have unf: "dj_loop G st = (case dj_step G st of
                     Continue st1 \<Rightarrow> dj_loop G st1
                   | Return None \<Rightarrow> Inl UnboundLocalError
                   | Return (Some r) \<Rightarrow> Inr r
                   | Fail e \<Rightarrow> Inl e)"
      using False by (subst dj_loop.simps) simp
    from dj_step_inv[OF "1.prems" ne] show ?thesis
    proof
      assume "\<exists>st'. dj_step G st = Continue st' \<and> dj_inv G s t st'"
      then obtain st' where c: "dj_step G st = Continue st'" and i: "dj_inv G s t st'" by blast
      from "1.IH"[OF False c "1.prems"(1,2) i] show ?thesis unfolding unf c by simp
    next
      assume "\<exists>fd fp. dj_step G st = Return (Some (fd, fp)) \<and> walk G s t fp
                \<and> path_weight G fp = fd \<and> (\<forall>q. walk G s t q \<longrightarrow> fd \<le> path_weight G q)"
      then obtain fd fp where r: "dj_step G st = Return (Some (fd, fp))"
        and w: "walk G s t fp" "path_weight G fp = fd" "\<forall>q. walk G s t q \<longrightarrow> fd \<le> path_weight G q"
        by blast
      have "dj_loop G st = Inr (fd, fp)" unfolding unf r by simp
      with w show ?thesis by blast
    qed
  qed
qed

text \<open>
  The contract of \<^verbatim>\<open>nx.shortest_path\<close> with a weight on a graph whose weights are not
  negative: between two different nodes it returns a walk of least total weight when
  one exists and raises \<^verbatim>\<open>NetworkXNoPath\<close> otherwise.
\<close>

lemma shortest_path_correct:
  assumes "wf_graph G" "nonneg G" "s \<in> set (nodes G)" "t \<in> set (nodes G)" "s \<noteq> t"
  shows "(\<exists>p. shortest_path G s t = Inr p \<and> walk G s t p
            \<and> (\<forall>q. walk G s t q \<longrightarrow> path_weight G p \<le> path_weight G q))
       \<or> (shortest_path G s t = Inl NetworkXNoPath \<and> (\<forall>q. \<not> walk G s t q))"
proof -
  let ?st = "\<lparr>fwd = \<lparr>dists = Map.empty, paths = [s \<mapsto> [s]],
                   fringe = [(0, 0, s)], seen = [s \<mapsto> 0]\<rparr>,
            bwd = \<lparr>dists = Map.empty, paths = [t \<mapsto> [t]],
                   fringe = [(0, 1, t)], seen = [t \<mapsto> 0]\<rparr>,
            cnt = 2, final = None, backward = True\<rparr>"
  have bd: "bidirectional_dijkstra G s t = dj_loop G ?st"
    using assms(3,4,5) by (simp add: bidirectional_dijkstra_def)
  from initial_inv[OF assms(5)] have "dj_inv G s t ?st" .
  from dj_loop_correct[OF assms(1,2) this] show ?thesis
    unfolding shortest_path_def bd by auto
qed

section \<open>Facts about path computation\<close>

text \<open>
  What \<^verbatim>\<open>_compute_path_with_priority\<close> decides from the topology, the traffic
  descriptors and the counters before it writes anything: an exception, or the
  flow-table entry together with the backup list when one is stored.
\<close>

definition plan ::
  "sdn \<Rightarrow> node \<Rightarrow> node \<Rightarrow> py_error + path option \<times> path list option" where
  "plan s src dst =
     (let all_paths = all_simple_paths (topology s) src dst
      in if all_paths = [] then Inr (None, None)
         else
           (let prio = (case map_of (traffic s) (src, dst) of None \<Rightarrow> 1 | Some ti \<Rightarrow> priority ti)
            in case (if prio = 3 then shortest_path (topology s) src dst
                     else select_load_balanced_path (link_utilization s) all_paths) of
                 Inl e \<Rightarrow> (if e = NetworkXNoPath then Inr (None, None) else Inl e)
               | Inr p \<Rightarrow>
                   Inr (Some p,
                        if length all_paths > 1 then Some (filter (\<lambda>q. q \<noteq> p) all_paths)
                        else None)))"

definition install :: "node \<Rightarrow> node \<Rightarrow> path option \<times> path list option \<Rightarrow> sdn \<Rightarrow> sdn result" where
  "install src dst w s =
     (case set_flow src dst (fst w) s of
        Raised e s1 \<Rightarrow> Raised e s1
      | Done s1 \<Rightarrow>
          Done (case snd w of
                  None \<Rightarrow> s1
                | Some b \<Rightarrow> s1\<lparr>backup_paths := AList.update (src, dst) b (backup_paths s1)\<rparr>))"

lemma compute_path_plan:
  "compute_path_with_priority src dst s =
     (case plan s src dst of Inl e \<Rightarrow> Raised e s | Inr w \<Rightarrow> install src dst w s)"
  by (auto simp: compute_path_with_priority_def plan_def install_def Let_def
      split: sum.splits result.splits)

lemma plan_cong:
  "topology s = topology t \<Longrightarrow> traffic s = traffic t \<Longrightarrow> link_utilization s = link_utilization t
   \<Longrightarrow> plan s = plan t"
  by (intro ext) (simp add: plan_def Let_def)

lemma install_Raised: "install src dst w s = Raised e s1 \<Longrightarrow> s1 = s"
  by (auto simp: install_def set_flow_def split: option.splits result.splits)

lemma install_Done:
  assumes "install src dst w s = Done s1"
  shows "\<exists>tbl. map_of (flow_tables s) src = Some tbl \<and>
           s1 = s\<lparr>flow_tables := AList.update src (AList.update dst (fst w) tbl) (flow_tables s),
                  backup_paths := (case snd w of None \<Rightarrow> backup_paths s
                                   | Some b \<Rightarrow> AList.update (src, dst) b (backup_paths s))\<rparr>"
  using assms
  by (auto simp: install_def set_flow_def split: option.splits result.splits)

definition settled :: "sdn \<Rightarrow> node \<times> node \<Rightarrow> bool" where
  "settled s sd = (case sd of (src, dst) \<Rightarrow>
     (\<exists>entry bk. plan s src dst = Inr (entry, bk) \<and> flow_entry s src dst = Some entry \<and>
          (\<forall>b. bk = Some b \<longrightarrow> map_of (backup_paths s) (src, dst) = Some b)))"

lemma settledI:
  "plan s src dst = Inr (entry, bk) \<Longrightarrow> flow_entry s src dst = Some entry \<Longrightarrow>
   (\<And>b. bk = Some b \<Longrightarrow> map_of (backup_paths s) (src, dst) = Some b) \<Longrightarrow> settled s (src, dst)"
  by (auto simp: settled_def)

lemma settledE:
  assumes "settled s (src, dst)"
  obtains entry bk where "plan s src dst = Inr (entry, bk)" "flow_entry s src dst = Some entry"
    "\<And>b. bk = Some b \<Longrightarrow> map_of (backup_paths s) (src, dst) = Some b"
  using assms by (auto simp: settled_def)

lemma flow_entry_update:
  "map_of ft a = Some tbl \<Longrightarrow>
   flow_entry (s\<lparr>flow_tables := AList.update a (AList.update b e tbl) ft\<rparr>) c d
     = (if c = a \<and> d = b then Some e else map_of (case map_of ft c of None \<Rightarrow> [] | Some t \<Rightarrow> t) d)"
  by (auto simp: flow_entry_def update_conv')

lemma step_frame:
  assumes "install src dst w s = Done s1"
  shows "topology s1 = topology s" "traffic s1 = traffic s"
    "link_utilization s1 = link_utilization s" "printed s1 = printed s"
  using install_Done[OF assms] by auto

lemma flow_entry_backup [simp]: "flow_entry (s\<lparr>backup_paths := t\<rparr>) = flow_entry s"
  by (simp add: flow_entry_def fun_eq_iff)

lemma install_entries:
  assumes "install src dst w s = Done s1"
  shows "flow_entry s1 c d = (if c = src \<and> d = dst then Some (fst w) else flow_entry s c d)"
    and "map_of (backup_paths s1) (c, d) =
           (if c = src \<and> d = dst \<and> snd w \<noteq> None then snd w else map_of (backup_paths s) (c, d))"
proof -
  from install_Done[OF assms] obtain tbl where
    t: "map_of (flow_tables s) src = Some tbl" and
    s1: "s1 = s\<lparr>flow_tables := AList.update src (AList.update dst (fst w) tbl) (flow_tables s),
                  backup_paths := (case snd w of None \<Rightarrow> backup_paths s
                                   | Some b \<Rightarrow> AList.update (src, dst) b (backup_paths s))\<rparr>"
    by blast
  show "flow_entry s1 c d = (if c = src \<and> d = dst then Some (fst w) else flow_entry s c d)"
    unfolding s1 using t by (auto simp: flow_entry_def update_conv')
  show "map_of (backup_paths s1) (c, d) =
           (if c = src \<and> d = dst \<and> snd w \<noteq> None then snd w else map_of (backup_paths s) (c, d))"
    unfolding s1 by (auto simp: update_conv' split: option.splits)
qed

lemma settled_step:
  assumes "compute_path_with_priority src dst s = Done s1"
  shows "settled s1 (src, dst)" and "settled s q \<Longrightarrow> settled s1 q"
proof -
  from assms obtain w where w: "plan s src dst = Inr w" and i: "install src dst w s = Done s1"
    by (auto simp: compute_path_plan split: sum.splits)
  obtain entry bk where wp: "w = (entry, bk)" by (cases w)
  have p: "plan s1 = plan s"
    using step_frame[OF i] by (intro plan_cong) simp_all
  show *: "settled s1 (src, dst)"
  proof (rule settledI)
    show "plan s1 src dst = Inr (entry, bk)" using w wp p by simp
    show "flow_entry s1 src dst = Some entry" using install_entries(1)[OF i, of src dst] wp by simp
    show "map_of (backup_paths s1) (src, dst) = Some b" if "bk = Some b" for b
      using install_entries(2)[OF i, of src dst] wp that by simp
  qed
  assume q: "settled s q"
  obtain c d where cd: "q = (c, d)" by (cases q)
  show "settled s1 q"
  proof (cases "c = src \<and> d = dst")
    case True
    then show ?thesis using cd * by simp
  next
    case False
    from q cd obtain e2 b2 where
      e2: "plan s c d = Inr (e2, b2)" "flow_entry s c d = Some e2"
        "\<And>b. b2 = Some b \<Longrightarrow> map_of (backup_paths s) (c, d) = Some b"
      by (auto elim: settledE)
    have "settled s1 (c, d)"
    proof (rule settledI)
      show "plan s1 c d = Inr (e2, b2)" using e2 p by simp
      show "flow_entry s1 c d = Some e2" using install_entries(1)[OF i, of c d] False e2 by auto
      show "map_of (backup_paths s1) (c, d) = Some b" if "b2 = Some b" for b
        using install_entries(2)[OF i, of c d] False e2(3)[OF that] by auto
    qed
    then show ?thesis using cd by simp
  qed
qed

lemma step_Raised: "compute_path_with_priority src dst s = Raised e s1 \<Longrightarrow> s1 = s"
  by (auto simp: compute_path_plan install_Raised split: sum.splits)

lemma settled_fixed:
  assumes "settled s (src, dst)"
  shows "compute_path_with_priority src dst s = Done s"
proof -
  from assms obtain entry bk where w: "plan s src dst = Inr (entry, bk)"
    and f: "flow_entry s src dst = Some entry"
    and b: "\<And>b. bk = Some b \<Longrightarrow> map_of (backup_paths s) (src, dst) = Some b"
    by (auto elim: settledE)
  from f obtain tbl where t: "map_of (flow_tables s) src = Some tbl" "map_of tbl dst = Some entry"
    by (auto simp: flow_entry_def split: option.splits)
  have 1: "AList.update src (AList.update dst entry tbl) (flow_tables s) = flow_tables s"
    using t by (simp add: update_triv)
  have 2: "(case bk of None \<Rightarrow> s
           | Some b \<Rightarrow> s\<lparr>backup_paths := AList.update (src, dst) b (backup_paths s)\<rparr>) = s"
    using b by (cases bk) (simp_all add: update_triv)
  show ?thesis
    using w t 1 2 by (simp add: compute_path_plan install_def set_flow_def)
qed

definition step :: "node \<times> node \<Rightarrow> sdn \<Rightarrow> sdn result" where
  "step sd s = (case sd of (src, dst) \<Rightarrow> compute_path_with_priority src dst s)"

lemma step_simp [simp]: "step (src, dst) s = compute_path_with_priority src dst s"
  by (simp add: step_def)

lemma compute_paths_step: "compute_paths s = for_each step (node_pairs (topology s)) s"
proof -
  have "(\<lambda>(src, dst). compute_path_with_priority src dst) = step"
    by (auto simp: fun_eq_iff)
  then show ?thesis by (simp add: compute_paths_def)
qed

lemma for_each_settled:
  assumes "for_each step ps s = r"
  shows "(\<forall>q. settled s q \<longrightarrow> settled (state_of r) q)
       \<and> (is_done r \<longrightarrow> (\<forall>q\<in>set ps. settled (state_of r) q))
       \<and> for_each step ps (state_of r) = r"
  using assms
proof (induction ps arbitrary: s)
  case Nil
  then show ?case by auto
next
  case (Cons p ps)
  obtain src dst where p: "p = (src, dst)" by (cases p)
  show ?case
  proof (cases "compute_path_with_priority src dst s")
    case (Raised e s')
    then have "s' = s" by (rule step_Raised)
    with Raised Cons.prems p have r: "r = Raised e s" by simp
    then have "for_each step (p # ps) (state_of r) = r"
      using Raised \<open>s' = s\<close> p by simp
    with r show ?thesis by simp
  next
    case (Done s')
    with Cons.prems p have r: "for_each step ps s' = r" by simp
    note ih = Cons.IH[OF r]
    have sp: "settled s' p" using settled_step(1)[OF Done] p by simp
    with ih have "settled (state_of r) p" by blast
    then have fx: "compute_path_with_priority src dst (state_of r) = Done (state_of r)"
      using p settled_fixed by simp
    have "\<forall>q. settled s q \<longrightarrow> settled (state_of r) q"
      using settled_step(2)[OF Done] ih by blast
    moreover have "for_each step (p # ps) (state_of r) = r"
      using fx ih p by simp
    moreover have "is_done r \<longrightarrow> (\<forall>q\<in>set (p # ps). settled (state_of r) q)"
      using ih \<open>settled (state_of r) p\<close> by simp
    ultimately show ?thesis by blast
  qed
qed

lemma step_fields:
  "topology (state_of (step sd s)) = topology s"
  "traffic (state_of (step sd s)) = traffic s"
  "link_utilization (state_of (step sd s)) = link_utilization s"
  "printed (state_of (step sd s)) = printed s"
  by (cases sd; auto simp: compute_path_plan install_def set_flow_def
        split: sum.splits option.splits result.splits)+

lemma compute_paths_fields:
  "topology (state_of (compute_paths s)) = topology s"
  "traffic (state_of (compute_paths s)) = traffic s"
  "printed (state_of (compute_paths s)) = printed s"
proof -
  show "topology (state_of (compute_paths s)) = topology s"
    unfolding compute_paths_step
    by (rule for_each_inv[where P = "\<lambda>t. topology t = topology s"]) (simp_all add: step_fields)
  show "traffic (state_of (compute_paths s)) = traffic s"
    unfolding compute_paths_step
    by (rule for_each_inv[where P = "\<lambda>t. traffic t = traffic s"]) (simp_all add: step_fields)
  show "printed (state_of (compute_paths s)) = printed s"
    unfolding compute_paths_step
    by (rule for_each_inv[where P = "\<lambda>t. printed t = printed s"]) (simp_all add: step_fields)
qed

lemma node_pairs_iff:
  "(src, dst) \<in> set (node_pairs G) \<longleftrightarrow> src \<in> set (nodes G) \<and> dst \<in> set (nodes G) \<and> src \<noteq> dst"
  by (auto simp: node_pairs_def)

lemma compute_paths_settled:
  assumes "compute_paths s = Done s'" "src \<in> set (nodes (topology s))"
    "dst \<in> set (nodes (topology s))" "src \<noteq> dst"
  shows "\<exists>entry bk. plan s src dst = Inr (entry, bk) \<and> flow_entry s' src dst = Some entry \<and>
           (\<forall>b. bk = Some b \<longrightarrow> map_of (backup_paths s') (src, dst) = Some b)"
proof -
  have "settled s' (src, dst)"
    using for_each_settled[of "node_pairs (topology s)" s "compute_paths s"] assms
    by (simp add: compute_paths_step node_pairs_iff)
  moreover have "plan s' = plan s"
    using compute_paths_fields[of s] compute_paths_link_utilization[of s] assms(1)
    by (intro plan_cong) simp_all
  ultimately show ?thesis by (auto elim!: settledE)
qed

lemma plan_backup:
  assumes "plan s src dst = Inr (Some p, bk)"
  shows "bk = (if 1 < length (all_simple_paths (topology s) src dst)
               then Some (filter (\<lambda>q. q \<noteq> p) (all_simple_paths (topology s) src dst)) else None)"
  using assms by (auto simp: plan_def Let_def split: if_splits sum.splits)

lemma is_done_state_of: "is_done r \<Longrightarrow> r = Done (state_of r)"
  by (cases r) simp_all

lemma plan_not_critical:
  assumes "(case map_of (traffic s) (src, dst) of None \<Rightarrow> 1 | Some ti \<Rightarrow> priority ti) \<noteq> 3"
    and "plan s src dst = Inr (entry, bk)"
  shows "if all_simple_paths (topology s) src dst = [] then entry = None
         else \<exists>p. entry = Some p \<and>
                select_load_balanced_path (link_utilization s) (all_simple_paths (topology s) src dst) = Inr p"
  using assms
  by (auto simp: plan_def Let_def select_load_balanced_path_def split: if_splits sum.splits list.splits)

lemma plan_critical:
  assumes "map_of (traffic s) (src, dst) = Some ti" "priority ti = 3"
    and "plan s src dst = Inr (entry, bk)"
  shows "if all_simple_paths (topology s) src dst = [] then entry = None
         else (case shortest_path (topology s) src dst of
                 Inl e \<Rightarrow> e = NetworkXNoPath \<and> entry = None
               | Inr p \<Rightarrow> entry = Some p)"
  using assms by (auto simp: plan_def Let_def split: if_splits sum.splits)

text \<open>
  What a completed \<^verbatim>\<open>compute_paths\<close> does fix. The flow-table entry of every ordered pair
  of different nodes is there and depends on the topology, the traffic descriptors and the
  counters only. The backup entry is written only when a path is installed and more than
  one simple path was enumerated.
\<close>

lemma compute_paths_determined:
  assumes "topology s = topology t" "traffic s = traffic t"
    "link_utilization s = link_utilization t"
    and "compute_paths s = Done s'" "compute_paths t = Done t'"
    and "src \<in> set (nodes (topology s))" "dst \<in> set (nodes (topology s))" "src \<noteq> dst"
  shows "flow_entry s' src dst = flow_entry t' src dst \<and> flow_entry s' src dst \<noteq> None \<and>
         (\<forall>p. flow_entry s' src dst = Some (Some p) \<and>
               1 < length (all_simple_paths (topology s) src dst) \<longrightarrow>
               map_of (backup_paths s') (src, dst)
                 = Some (filter (\<lambda>q. q \<noteq> p) (all_simple_paths (topology s) src dst)) \<and>
               map_of (backup_paths t') (src, dst) = map_of (backup_paths s') (src, dst))"
proof -
  from compute_paths_settled[OF assms(4,6,7,8)] obtain e1 b1 where
    1: "plan s src dst = Inr (e1, b1)" "flow_entry s' src dst = Some e1"
       "\<And>b. b1 = Some b \<Longrightarrow> map_of (backup_paths s') (src, dst) = Some b" by blast
  from compute_paths_settled[OF assms(5), of src dst] assms obtain e2 b2 where
    2: "plan t src dst = Inr (e2, b2)" "flow_entry t' src dst = Some e2"
       "\<And>b. b2 = Some b \<Longrightarrow> map_of (backup_paths t') (src, dst) = Some b" by auto
  have "plan s = plan t" using assms(1-3) by (rule plan_cong)
  with 1 2 have eq: "e2 = e1" "b2 = b1" by simp_all
  show ?thesis
  proof (intro conjI allI impI)
    show "flow_entry s' src dst = flow_entry t' src dst" using 1 2 eq by simp
    show "flow_entry s' src dst \<noteq> None" using 1 by simp
  next
    fix p
    assume a: "flow_entry s' src dst = Some (Some p) \<and>
               1 < length (all_simple_paths (topology s) src dst)"
    with 1 have "e1 = Some p" by simp
    with plan_backup[of s src dst p b1] 1 a
    have b1: "b1 = Some (filter (\<lambda>q. q \<noteq> p) (all_simple_paths (topology s) src dst))" by simp
    show "map_of (backup_paths s') (src, dst)
                 = Some (filter (\<lambda>q. q \<noteq> p) (all_simple_paths (topology s) src dst))"
      using 1(3)[OF b1] .
    show "map_of (backup_paths t') (src, dst) = map_of (backup_paths s') (src, dst)"
      using 1(3)[OF b1] 2(3)[of "filter (\<lambda>q. q \<noteq> p) (all_simple_paths (topology s) src dst)"] eq b1
      by simp
  qed
qed
section \<open>The topology of a reachable state\<close>

text \<open>
  The graph operations keep the keys of the adjacency dicts distinct and the two entries
  of a link equal, and no other method touches the topology.
\<close>

lemma wf_graph_iff:
  "wf_graph G \<longleftrightarrow>
     distinct (map fst G) \<and> (\<forall>u. distinct (map fst (adj G u))) \<and>
     (\<forall>u v d. map_of (adj G u) v = Some d \<longrightarrow> map_of (adj G v) u = Some d)"
proof
  assume wf: "wf_graph G"
  then have d: "distinct (map fst G)" by (simp add: wf_graph_def)
  have "distinct (map fst (adj G u))" for u
  proof (cases "map_of G u")
    case None
    then show ?thesis by (simp add: adj_def)
  next
    case (Some nb)
    then have "(u, nb) \<in> set G" by (rule map_of_SomeD)
    with wf have "distinct (map fst nb)" by (auto simp: wf_graph_def list_all_iff)
    with Some show ?thesis by (simp add: adj_def)
  qed
  moreover have "map_of (adj G v) u = Some e" if "map_of (adj G u) v = Some e" for u v e
    using wf that by (rule wf_sym)
  ultimately show "distinct (map fst G) \<and> (\<forall>u. distinct (map fst (adj G u))) \<and>
     (\<forall>u v d. map_of (adj G u) v = Some d \<longrightarrow> map_of (adj G v) u = Some d)"
    using d by blast
next
  assume a: "distinct (map fst G) \<and> (\<forall>u. distinct (map fst (adj G u))) \<and>
     (\<forall>u v d. map_of (adj G u) v = Some d \<longrightarrow> map_of (adj G v) u = Some d)"
  then have a1: "distinct (map fst G)" and a2: "\<And>u. distinct (map fst (adj G u))"
    and a3: "\<And>u v d. map_of (adj G u) v = Some d \<Longrightarrow> map_of (adj G v) u = Some d"
    by blast+
  have pp: "distinct (map fst nb) \<and> list_all (\<lambda>(v, d). map_of (adj G v) u = Some d) nb"
    if "(u, nb) \<in> set G" for u nb
  proof -
    from that a1 have m: "map_of G u = Some nb" by (rule map_of_is_SomeI[rotated])
    then have nb: "adj G u = nb" by (simp add: adj_def)
    from a2[of u] have dn: "distinct (map fst nb)" unfolding nb .
    have "map_of (adj G v) u = Some d" if "(v, d) \<in> set nb" for v d
    proof -
      from dn that have "map_of nb v = Some d" by (rule map_of_is_SomeI)
      then have "map_of (adj G u) v = Some d" unfolding nb .
      then show ?thesis by (rule a3)
    qed
    then have "list_all (\<lambda>(v, d). map_of (adj G v) u = Some d) nb"
      unfolding list_all_iff by blast
    with dn show ?thesis by simp
  qed
  have "list_all (\<lambda>(u, nb). distinct (map fst nb) \<and>
                 list_all (\<lambda>(v, d). map_of (adj G v) u = Some d) nb) G"
    unfolding list_all_iff[of _ G] using pp by blast
  with a1 show "wf_graph G" unfolding wf_graph_def by simp
qed

lemma adj_update: "adj (AList.update u nb G) x = (if x = u then nb else adj G x)"
  by (simp add: adj_def update_conv')

lemma adj_add_node: "adj (g_add_node n G) = adj G"
  by (intro ext) (auto simp: adj_def g_add_node_def split: option.splits if_splits)

lemma distinct_add_node: "distinct (map fst G) \<Longrightarrow> distinct (map fst (g_add_node n G))"
  by (auto simp: g_add_node_def map_of_eq_None_iff split: option.splits)

lemma wf_add_node: "wf_graph G \<Longrightarrow> wf_graph (g_add_node n G)"
  unfolding wf_graph_iff by (simp add: adj_add_node distinct_add_node)

lemma wf_add_edge:
  assumes "wf_graph G"
  shows "wf_graph (g_add_edge u v w c G)"
proof -
  define G1 where "G1 = g_add_node v (g_add_node u G)"
  define d where "d = \<lparr>weight = w, capacity = c\<rparr>"
  define G2 where "G2 = set_adj u v d G1"
  have g: "g_add_edge u v w c G = set_adj v u d G2"
    by (simp add: g_add_edge_def Let_def G1_def d_def G2_def)
  have w1: "wf_graph G1" unfolding G1_def using assms by (intro wf_add_node)
  have a2: "adj G2 x = (if x = u then AList.update v d (adj G1 u) else adj G1 x)" for x
    by (simp add: G2_def set_adj_def adj_update)
  have a3: "adj (set_adj v u d G2) x = (if x = v then AList.update u d (adj G2 v) else adj G2 x)" for x
    by (simp add: set_adj_def adj_update)
  have l: "map_of (adj (set_adj v u d G2) x) y
            = (if (x = u \<and> y = v) \<or> (x = v \<and> y = u) then Some d else map_of (adj G1 x) y)" for x y
    by (simp add: a3 a2 update_conv')
  from w1 have k: "distinct (map fst G1)" "\<And>x. distinct (map fst (adj G1 x))"
    "\<And>x y e. map_of (adj G1 x) y = Some e \<Longrightarrow> map_of (adj G1 y) x = Some e"
    unfolding wf_graph_iff by blast+
  show ?thesis unfolding g wf_graph_iff
  proof (intro conjI allI impI)
    show "distinct (map fst (set_adj v u d G2))"
      using k(1) by (simp add: set_adj_def G2_def distinct_update)
    show "distinct (map fst (adj (set_adj v u d G2) x))" for x
      using k(2) by (simp add: a3 a2 distinct_update)
    show "map_of (adj (set_adj v u d G2) y) x = Some e"
      if "map_of (adj (set_adj v u d G2) x) y = Some e" for x y e
      using that k(3)[of x y e] unfolding l by (auto split: if_splits)
  qed
qed

lemma wf_remove_edge:
  assumes "wf_graph G"
  shows "wf_graph (g_remove_edge u v G)"
proof -
  define G2 where "G2 = del_adj u v G"
  define G3 where "G3 = (if u \<noteq> v then del_adj v u G2 else G2)"
  have g: "g_remove_edge u v G = G3" by (simp add: g_remove_edge_def G2_def G3_def)
  have a2: "adj G2 x = (if x = u then AList.delete v (adj G u) else adj G x)" for x
    by (simp add: G2_def del_adj_def adj_update)
  have a3: "adj G3 x = (if u \<noteq> v \<and> x = v then AList.delete u (adj G2 v) else adj G2 x)" for x
    by (simp add: G3_def del_adj_def adj_update)
  have l: "map_of (adj G3 x) y
            = (if (x = u \<and> y = v) \<or> (x = v \<and> y = u) then None else map_of (adj G x) y)" for x y
    by (auto simp: a3 a2 delete_conv')
  from assms have k: "distinct (map fst G)" "\<And>x. distinct (map fst (adj G x))"
    "\<And>x y e. map_of (adj G x) y = Some e \<Longrightarrow> map_of (adj G y) x = Some e"
    unfolding wf_graph_iff by blast+
  show ?thesis unfolding g wf_graph_iff
  proof (intro conjI allI impI)
    show "distinct (map fst G3)"
      using k(1) by (simp add: G3_def G2_def del_adj_def distinct_update)
    show "distinct (map fst (adj G3 x))" for x
      using k(2) by (simp add: a3 a2 distinct_delete)
    show "map_of (adj G3 y) x = Some e" if "map_of (adj G3 x) y = Some e" for x y e
      using that k(3)[of x y e] unfolding l by (auto split: if_splits)
  qed
qed


lemma add_node_topology: "topology (add_node ns s) = fold g_add_node ns (topology s)"
  unfolding add_node_def
  by (induction ns arbitrary: s) (simp_all add: add_node1_def)

lemma wf_fold_add_node: "wf_graph G \<Longrightarrow> wf_graph (fold g_add_node ns G)"
  by (induction ns arbitrary: G) (simp_all add: wf_add_node)

lemma reroute_topology: "topology (state_of (reroute sd s)) = topology s"
proof -
  obtain src dst where sd: "sd = (src, dst)" by (cases sd)
  show ?thesis
  proof (cases "map_of (backup_paths s) (src, dst)")
    case None
    then show ?thesis using sd by (simp add: reroute_def set_flow_fields)
  next
    case (Some bs)
    show ?thesis
    proof (cases bs)
      case Nil
      then show ?thesis using sd Some by (simp add: reroute_def set_flow_fields)
    next
      case (Cons b rest)
      define s0 where "s0 = s\<lparr>backup_paths := AList.update (src, dst) rest (backup_paths s)\<rparr>"
      have t0: "topology s0 = topology s" by (simp add: s0_def)
      have r: "reroute sd s = (case set_flow src dst (Some b) s0 of
                  Raised e s1 \<Rightarrow> Raised e s1
                | Done s1 \<Rightarrow> count_flow b (say (Rerouted src dst b) s1))"
        using sd Some Cons by (simp add: reroute_def s0_def)
      show ?thesis
      proof (cases "set_flow src dst (Some b) s0")
        case (Done s1)
        then have "topology s1 = topology s"
          using set_flow_fields(1)[of src dst "Some b" s0] t0 by simp
        then show ?thesis unfolding r Done by (simp add: count_flow_fields)
      next
        case (Raised e s1)
        then have "topology s1 = topology s"
          using set_flow_fields(1)[of src dst "Some b" s0] t0 by simp
        then show ?thesis unfolding r Raised by simp
      qed
    qed
  qed
qed

lemma handle_link_failure_topology:
  "topology (state_of (handle_link_failure u v s)) = topology s"
  unfolding handle_link_failure_def
  by (rule for_each_inv[where P = "\<lambda>t. topology t = topology s"])
     (simp_all add: reroute_topology)

lemma remove_link_topology:
  "topology (state_of (remove_link u v s))
     = (if has_edge (topology s) u v then g_remove_edge u v (topology s) else topology s)"
  by (simp add: remove_link_def handle_link_failure_topology)

lemma inject_flow_topology: "topology (state_of (inject_flow src dst ty s)) = topology s"
  by (auto simp: inject_flow_def Let_def count_flow_fields split: option.splits list.splits)

lemma show_utilization_topology: "topology (state_of (show_utilization s)) = topology s"
proof -
  have "topology (state_of (for_each show_line xs t)) = topology s"
    if "topology t = topology s" for xs t
    by (rule for_each_inv[where P = "\<lambda>t. topology t = topology s"])
       (auto simp: show_line_def that split: option.splits)
  then show ?thesis by (simp add: show_utilization_def)
qed

text \<open>Every state the controller can be in holds a graph as \<^verbatim>\<open>nx.Graph\<close> keeps it.\<close>

lemma reachable_wf_graph: "reachable s \<Longrightarrow> wf_graph (topology s)"
proof (induction rule: reachable.induct)
  case r_init
  show ?case by (simp add: init_def wf_graph_def)
next
  case (r_add_node s ns)
  then show ?case by (simp add: add_node_topology wf_fold_add_node)
next
  case (r_add_link s u v w c)
  then show ?case by (simp add: add_link_def wf_add_edge)
next
  case (r_remove_link s u v)
  then show ?case by (simp add: remove_link_topology wf_remove_edge)
next
  case (r_inject_flow s src dst ty)
  then show ?case by (simp add: inject_flow_topology)
next
  case (r_compute_paths s)
  then show ?case by (simp add: compute_paths_fields)
next
  case (r_show_utilization s)
  then show ?case by (simp add: show_utilization_topology)
qed

section \<open>Claims\<close>

subsection \<open>Utilization counters\<close>

text \<open>
  C10. In every reachable state the two directed counters of a link agree: the
  counter for \<open>(u, v)\<close> exists exactly when the one for \<open>(v, u)\<close> does, and then both
  hold the same value.
\<close>

theorem counters_symmetric:
  assumes "reachable s"
  shows "map_of (link_utilization s) (u, v) = map_of (link_utilization s) (v, u)"
  using reachable_sym[OF assms] unfolding sym_counters_def by (rule sym_mapD)

theorem counters_symmetric_witness:
  "reachable (state_of (inject_flow ''A'' ''B'' ''default'' (state_of (compute_paths two_nodes))))
   \<and> map_of (link_utilization
        (state_of (inject_flow ''A'' ''B'' ''default'' (state_of (compute_paths two_nodes)))))
        (''A'', ''B'') = Some 1
   \<and> map_of (link_utilization
        (state_of (inject_flow ''A'' ''B'' ''default'' (state_of (compute_paths two_nodes)))))
        (''B'', ''A'') = Some 1"
proof -
  define s where
    "s = state_of (inject_flow ''A'' ''B'' ''default'' (state_of (compute_paths two_nodes)))"
  have r: "reachable s"
    unfolding s_def two_nodes_def by (intro reachable.intros)
  have ab: "map_of (link_utilization s) (''A'', ''B'') = Some 1"
    unfolding s_def by code_simp
  from counters_symmetric[OF r, of "''B''" "''A''"] ab
  have "map_of (link_utilization s) (''B'', ''A'') = Some 1" by simp
  with r ab show ?thesis unfolding s_def by blast
qed

text \<open>
  C7. When the flow table holds the path \<open>[a, b, c]\<close> of three different nodes for
  \<open>(src, dst)\<close> and the four directed counters of its two links exist,
  \<^verbatim>\<open>inject_flow\<close> returns normally, has added exactly 1 to each of the counters
  \<open>(a, b)\<close>, \<open>(b, a)\<close>, \<open>(b, c)\<close>, \<open>(c, b)\<close>, and has changed no other counter.
\<close>

theorem inject_flow_counts:
  assumes "flow_entry s src dst = Some (Some [a, b, c])"
    and "distinct [a, b, c]"
    and "{(a, b), (b, a), (b, c), (c, b)} \<subseteq> dom (map_of (link_utilization s))"
  shows "\<exists>s'. inject_flow src dst ty s = Done s' \<and>
           (\<forall>e. map_of (link_utilization s') e =
                  (if e \<in> {(a, b), (b, a), (b, c), (c, b)}
                   then map_option (\<lambda>n. n + 1) (map_of (link_utilization s) e)
                   else map_of (link_utilization s) e))"
proof -
  from assms(3) obtain n1 n2 n3 n4 where
    n: "map_of (link_utilization s) (a, b) = Some n1" "map_of (link_utilization s) (b, a) = Some n2"
       "map_of (link_utilization s) (b, c) = Some n3" "map_of (link_utilization s) (c, b) = Some n4"
    by auto
  from assms(2) have d: "a \<noteq> b" "b \<noteq> c" "a \<noteq> c" by auto
  from count_path3[OF d n] obtain lu' where
    lu': "count_path [a, b, c] (link_utilization s) = Done lu'"
      "map_of lu' = (map_of (link_utilization s))((a, b) \<mapsto> n1 + 1, (b, a) \<mapsto> n2 + 1,
                                     (b, c) \<mapsto> n3 + 1, (c, b) \<mapsto> n4 + 1)"
    by blast
  have "inject_flow src dst ty s =
          Done ((say (Routing ty src dst [a, b, c])
                  (s\<lparr>traffic := AList.update (src, dst)
                               \<lparr>ttype = ty, priority = priority_of ty\<rparr> (traffic s)\<rparr>))
                \<lparr>link_utilization := lu'\<rparr>)"
    using assms(1) lu' by (simp add: inject_flow_def Let_def count_flow_def)
  moreover have "map_of lu' e =
                  (if e \<in> {(a, b), (b, a), (b, c), (c, b)}
                   then map_option (\<lambda>n. n + 1) (map_of (link_utilization s) e)
                   else map_of (link_utilization s) e)" for e
    unfolding lu'(2) using n d by (cases e) auto
  ultimately show ?thesis by simp
qed


theorem inject_flow_counts_witness:
  "flow_entry (state_of (compute_paths triangle)) ''A'' ''C'' = Some (Some [''A'', ''B'', ''C''])
   \<and> (\<exists>s'. inject_flow ''A'' ''C'' ''default'' (state_of (compute_paths triangle)) = Done s'
          \<and> map_of (link_utilization s') (''A'', ''B'') = Some 1
          \<and> map_of (link_utilization s') (''C'', ''B'') = Some 1
          \<and> map_of (link_utilization s') (''A'', ''C'') = Some 0)"
proof -
  define s where "s = state_of (compute_paths triangle)"
  have h1: "flow_entry s ''A'' ''C'' = Some (Some [''A'', ''B'', ''C''])"
    unfolding s_def by code_simp
  have h2: "distinct [''A'', ''B'', ''C'']" by simp
  have lu: "link_utilization s =
      [((''A'', ''B''), 0), ((''B'', ''A''), 0), ((''B'', ''C''), 0),
       ((''C'', ''B''), 0), ((''A'', ''C''), 0), ((''C'', ''A''), 0)]"
    unfolding s_def by code_simp
  have h3: "{(''A'', ''B''), (''B'', ''A''), (''B'', ''C''), (''C'', ''B'')}
              \<subseteq> dom (map_of (link_utilization s))"
    unfolding lu by simp
  from inject_flow_counts[OF h1 h2 h3, of "''default''"] obtain s' where
    s': "inject_flow ''A'' ''C'' ''default'' s = Done s'"
    and e: "\<And>e. map_of (link_utilization s') e =
                  (if e \<in> {(''A'', ''B''), (''B'', ''A''), (''B'', ''C''), (''C'', ''B'')}
                   then map_option (\<lambda>n. n + 1) (map_of (link_utilization s) e)
                   else map_of (link_utilization s) e)"
    by blast
  have "map_of (link_utilization s') (''A'', ''B'') = Some 1"
    "map_of (link_utilization s') (''C'', ''B'') = Some 1"
    "map_of (link_utilization s') (''A'', ''C'') = Some 0"
    unfolding e lu by simp_all
  with h1 s' show ?thesis unfolding s_def by blast
qed

subsection \<open>\<^verbatim>\<open>inject_flow\<close> without a route\<close>

text \<open>
  C3, as the code has it. When the flow table has no entry for \<open>(src, dst)\<close>,
  \<^verbatim>\<open>inject_flow\<close> returns normally, prints only that routing information is missing,
  and records the traffic descriptor of \<open>(src, dst)\<close>; the topology, the flow tables, the
  backup paths and the utilization counters stay as they were.
\<close>

theorem inject_flow_without_route:
  assumes "flow_entry s src dst = None"
  shows "inject_flow src dst ty s =
           Done (s\<lparr>traffic := AList.update (src, dst)
                               \<lparr>ttype = ty, priority = priority_of ty\<rparr> (traffic s),
                   printed := printed s @ [NoRoutingInfo src dst]\<rparr>)"
  using assms by (simp add: inject_flow_def Let_def say_def)

theorem inject_flow_without_route_witness:
  "flow_entry init ''A'' ''B'' = None \<and>
   inject_flow ''A'' ''B'' ''Critical'' init =
     Done (init\<lparr>traffic := [((''A'', ''B''), \<lparr>ttype = ''Critical'', priority = 3\<rparr>)],
                printed := [NoRoutingInfo ''A'' ''B'']\<rparr>)"
proof -
  have h: "flow_entry init ''A'' ''B'' = None" by code_simp
  have p: "priority_of ''Critical'' = 3" by code_simp
  show ?thesis
    using inject_flow_without_route[OF h, of "''Critical''"] h p
    by (simp add: init_def)
qed

text \<open>
  The claim as stated fails: the traffic descriptors change on the fresh controller.
\<close>

theorem inject_flow_changes_traffic:
  "flow_entry init ''A'' ''B'' = None \<and>
   traffic (state_of (inject_flow ''A'' ''B'' ''default'' init)) \<noteq> traffic init"
  by code_simp

subsection \<open>\<^verbatim>\<open>add_node\<close> on a node that exists\<close>

text \<open>
  C9, as the code has it. Adding a node that is already in the topology leaves the
  topology, the traffic descriptors, the counters, the backup paths and the flow-table
  maps of all other nodes as they were, and replaces that node's own flow-table map by
  the empty one.
\<close>

theorem add_node_existing:
  assumes "n \<in> set (nodes (topology s))"
  shows "add_node [n] s =
           s\<lparr>flow_tables := AList.update n [] (flow_tables s),
             printed := printed s @ [AddedNode n]\<rparr>"
  using assms by (simp add: add_node_def add_node1_def say_def g_add_node_existing)

theorem add_node_existing_witness:
  "''A'' \<in> set (nodes (topology (state_of (compute_paths two_nodes)))) \<and>
   flow_tables (add_node [''A''] (state_of (compute_paths two_nodes))) =
     [(''A'', []), (''B'', [(''A'', Some [''B'', ''A''])])]"
proof -
  have h: "''A'' \<in> set (nodes (topology (state_of (compute_paths two_nodes))))" by code_simp
  have f: "AList.update ''A'' [] (flow_tables (state_of (compute_paths two_nodes)))
           = [(''A'', []), (''B'', [(''A'', Some [''B'', ''A''])])]" by code_simp
  show ?thesis using add_node_existing[OF h] h f by simp
qed

text \<open>
  The claim as stated fails: after a path computation node \<open>A\<close> owns a non-empty
  flow-table map, and adding \<open>A\<close> again empties it.
\<close>

theorem add_node_resets_flow_table:
  "''A'' \<in> set (nodes (topology (state_of (compute_paths two_nodes)))) \<and>
   flow_tables (add_node [''A''] (state_of (compute_paths two_nodes)))
     \<noteq> flow_tables (state_of (compute_paths two_nodes))"
  by code_simp

subsection \<open>Exceptions that leave a public method\<close>

text \<open>
  C5 (the code raises). \<^verbatim>\<open>add_link\<close> creates the two nodes in the topology but no
  flow-table map for them; the next \<^verbatim>\<open>compute_paths\<close> then raises \<^verbatim>\<open>KeyError\<close> at
  \<^verbatim>\<open>self.flow_tables[src][dst] = path\<close>.
\<close>

theorem compute_paths_raises_KeyError:
  "reachable (add_link ''A'' ''B'' 1 10 init) \<and>
   compute_paths (add_link ''A'' ''B'' 1 10 init) = Raised KeyError (add_link ''A'' ''B'' 1 10 init)"
proof -
  have "compute_paths (add_link ''A'' ''B'' 1 10 init) = Raised KeyError (add_link ''A'' ''B'' 1 10 init)"
    by code_simp
  then show ?thesis by (simp add: reachable.intros)
qed

text \<open>
  C2 (the code installs a path over the removed link). With \<open>A\<close> hanging off the
  cycle \<open>B\<close>, \<open>C\<close>, \<open>D\<close>, both paths from \<open>A\<close> to \<open>C\<close> start with the link between \<open>A\<close>
  and \<open>B\<close>. Removing that link installs the queued backup \<open>[A, B, D, C]\<close>, which steps
  over the removed link, and the method then raises \<^verbatim>\<open>KeyError\<close> on the counter of
  \<open>(A, B)\<close>, which is gone.
\<close>

theorem remove_link_installs_removed_link:
  "reachable (state_of (compute_paths pendant)) \<and>
   flow_entry (state_of (compute_paths pendant)) ''A'' ''C'' = Some (Some [''A'', ''B'', ''C'']) \<and>
   uses_link ''A'' ''B'' [''A'', ''B'', ''C''] \<and>
   map_of (backup_paths (state_of (compute_paths pendant))) (''A'', ''C'') = Some [[''A'', ''B'', ''D'', ''C'']] \<and>
   \<not> is_done (remove_link ''A'' ''B'' (state_of (compute_paths pendant))) \<and>
   flow_entry (state_of (remove_link ''A'' ''B'' (state_of (compute_paths pendant)))) ''A'' ''C''
     = Some (Some [''A'', ''B'', ''D'', ''C'']) \<and>
   uses_link ''A'' ''B'' [''A'', ''B'', ''D'', ''C'']"
proof -
  have "reachable (state_of (compute_paths pendant))"
    unfolding pendant_def by (intro reachable.intros)
  moreover have
   "flow_entry (state_of (compute_paths pendant)) ''A'' ''C'' = Some (Some [''A'', ''B'', ''C'']) \<and>
   uses_link ''A'' ''B'' [''A'', ''B'', ''C''] \<and>
   map_of (backup_paths (state_of (compute_paths pendant))) (''A'', ''C'') = Some [[''A'', ''B'', ''D'', ''C'']] \<and>
   \<not> is_done (remove_link ''A'' ''B'' (state_of (compute_paths pendant))) \<and>
   flow_entry (state_of (remove_link ''A'' ''B'' (state_of (compute_paths pendant)))) ''A'' ''C''
     = Some (Some [''A'', ''B'', ''D'', ''C'']) \<and>
   uses_link ''A'' ''B'' [''A'', ''B'', ''D'', ''C'']"
    by code_simp
  ultimately show ?thesis by blast
qed


subsection \<open>Path computation\<close>

text \<open>
  C8. Running \<^verbatim>\<open>compute_paths\<close> again on the state a run of it left behind gives the
  same outcome and the same state, so the flow tables and the backup paths after the
  second run are those after the first. This also covers a run that raised.
\<close>

theorem compute_paths_idempotent:
  "compute_paths (state_of (compute_paths s)) = compute_paths s"
proof -
  have "for_each step (node_pairs (topology s)) (state_of (compute_paths s)) = compute_paths s"
    using for_each_settled[of "node_pairs (topology s)" s "compute_paths s"]
    by (simp add: compute_paths_step)
  then show ?thesis
    by (simp add: compute_paths_step[of "state_of (compute_paths s)"] compute_paths_fields)
qed

text \<open>
  C4 (the code keeps backup entries of an earlier run). In the triangle the pair
  \<open>(A, B)\<close> gets the path \<open>[A, B]\<close> and the backup \<open>[A, C, B]\<close>. After the link between
  \<open>A\<close> and \<open>C\<close> is removed, \<open>[A, B]\<close> is the only simple path from \<open>A\<close> to \<open>B\<close>, and a
  completed \<^verbatim>\<open>compute_paths\<close> leaves the backup entry \<open>[[A, C, B]]\<close> in place, while
  from the state with the registry emptied, which has the same topology, traffic and
  counters, it ends with no backup entry for the pair. Removing the link between \<open>A\<close> and
  \<open>B\<close> right after the recomputation installs the kept backup, which steps over the link
  that is gone, and raises.
\<close>

theorem compute_paths_keeps_stale_backup:
  "reachable stale \<and>
   \<not> is_edge (topology stale) ''A'' ''C'' \<and>
   all_simple_paths (topology stale) ''A'' ''B'' = [[''A'', ''B'']] \<and>
   is_done (compute_paths stale) \<and>
   flow_entry (state_of (compute_paths stale)) ''A'' ''B'' = Some (Some [''A'', ''B'']) \<and>
   map_of (backup_paths (state_of (compute_paths stale))) (''A'', ''B'') = Some [[''A'', ''C'', ''B'']] \<and>
   uses_link ''A'' ''C'' [''A'', ''C'', ''B''] \<and>
   topology (stale\<lparr>backup_paths := []\<rparr>) = topology stale \<and>
   traffic (stale\<lparr>backup_paths := []\<rparr>) = traffic stale \<and>
   link_utilization (stale\<lparr>backup_paths := []\<rparr>) = link_utilization stale \<and>
   is_done (compute_paths (stale\<lparr>backup_paths := []\<rparr>)) \<and>
   map_of (backup_paths (state_of (compute_paths (stale\<lparr>backup_paths := []\<rparr>)))) (''A'', ''B'') = None \<and>
   \<not> is_done (remove_link ''A'' ''B'' (state_of (compute_paths stale))) \<and>
   flow_entry (state_of (remove_link ''A'' ''B'' (state_of (compute_paths stale)))) ''A'' ''B''
     = Some (Some [''A'', ''C'', ''B''])"
proof -
  have "reachable stale"
    unfolding stale_def triangle_def by (intro reachable.intros)
  moreover have
   "\<not> is_edge (topology stale) ''A'' ''C'' \<and>
    all_simple_paths (topology stale) ''A'' ''B'' = [[''A'', ''B'']] \<and>
    is_done (compute_paths stale) \<and>
    flow_entry (state_of (compute_paths stale)) ''A'' ''B'' = Some (Some [''A'', ''B'']) \<and>
    map_of (backup_paths (state_of (compute_paths stale))) (''A'', ''B'') = Some [[''A'', ''C'', ''B'']] \<and>
    uses_link ''A'' ''C'' [''A'', ''C'', ''B'']"
    by code_simp
  moreover have
   "is_done (compute_paths (stale\<lparr>backup_paths := []\<rparr>)) \<and>
    map_of (backup_paths (state_of (compute_paths (stale\<lparr>backup_paths := []\<rparr>)))) (''A'', ''B'') = None"
    by code_simp
  moreover have
   "\<not> is_done (remove_link ''A'' ''B'' (state_of (compute_paths stale))) \<and>
    flow_entry (state_of (remove_link ''A'' ''B'' (state_of (compute_paths stale)))) ''A'' ''B''
      = Some (Some [''A'', ''C'', ''B''])"
    by code_simp
  ultimately show ?thesis by simp
qed

text \<open>
  C6. For an ordered pair of different nodes whose traffic descriptor is not critical
  (or is missing), a completed \<^verbatim>\<open>compute_paths\<close> installs a path exactly when a
  simple path exists. The installed path is a simple path, its total utilization (the
  sum of the directed counters over its consecutive pairs, a missing counter counting 0)
  is at most that of every simple path between the two nodes, and every path enumerated
  before it has a strictly larger total: it is the first minimal one in enumeration
  order.
\<close>

theorem load_balanced_choice:
  assumes "compute_paths s = Done s'"
    and "src \<in> set (nodes (topology s))" "dst \<in> set (nodes (topology s))" "src \<noteq> dst"
    and "(case map_of (traffic s) (src, dst) of None \<Rightarrow> 1 | Some ti \<Rightarrow> priority ti) \<noteq> 3"
  shows "if (\<exists>q. simple_path (topology s) src dst q)
         then (\<exists>p pre post.
                 flow_entry s' src dst = Some (Some p)
               \<and> simple_path (topology s) src dst p
               \<and> (\<forall>q. simple_path (topology s) src dst q \<longrightarrow>
                      path_util (link_utilization s) p \<le> path_util (link_utilization s) q)
               \<and> all_simple_paths (topology s) src dst = pre @ p # post
               \<and> (\<forall>q\<in>set pre. path_util (link_utilization s) p < path_util (link_utilization s) q))
         else flow_entry s' src dst = Some None"
proof -
  let ?G = "topology s" and ?lu = "link_utilization s"
  let ?ap = "all_simple_paths ?G src dst"
  note iff = all_simple_paths_iff[OF assms(2,3,4)]
  from compute_paths_settled[OF assms(1-4)] obtain entry bk where
    pl: "plan s src dst = Inr (entry, bk)" and fe: "flow_entry s' src dst = Some entry" by blast
  note pn = plan_not_critical[OF assms(5) pl]
  show ?thesis
  proof (cases "?ap = []")
    case True
    then have "\<not> (\<exists>q. simple_path ?G src dst q)" using iff by (metis empty_iff empty_set)
    moreover have "entry = None" using pn True by simp
    ultimately show ?thesis using fe by simp
  next
    case False
    with pn obtain p where p: "entry = Some p" "select_load_balanced_path ?lu ?ap = Inr p"
      by auto
    from select_first_min[OF p(2)] obtain pre post where
      pp: "?ap = pre @ p # post" "\<forall>q\<in>set pre. path_util ?lu p < path_util ?lu q"
        "\<forall>q\<in>set post. path_util ?lu p \<le> path_util ?lu q" by blast
    have sp: "simple_path ?G src dst p" using iff[of p] pp(1) by simp
    have le: "path_util ?lu p \<le> path_util ?lu q" if "simple_path ?G src dst q" for q
    proof -
      from that iff[of q] have "q \<in> set (pre @ p # post)" using pp(1) by simp
      then show ?thesis using pp(2,3) by auto
    qed
    have "\<exists>q. simple_path ?G src dst q" using sp by blast
    moreover have "\<exists>p pre post.
                 flow_entry s' src dst = Some (Some p)
               \<and> simple_path ?G src dst p
               \<and> (\<forall>q. simple_path ?G src dst q \<longrightarrow> path_util ?lu p \<le> path_util ?lu q)
               \<and> ?ap = pre @ p # post
               \<and> (\<forall>q\<in>set pre. path_util ?lu p < path_util ?lu q)"
      using fe p(1) sp le pp(1,2) by blast
    ultimately show ?thesis by simp
  qed
qed

theorem load_balanced_choice_witness:
  "is_done (compute_paths loaded)
   \<and> flow_entry (state_of (compute_paths loaded)) ''A'' ''C'' = Some (Some [''A'', ''C''])
   \<and> simple_path (topology loaded) ''A'' ''C'' [''A'', ''B'', ''C'']
   \<and> path_util (link_utilization loaded) [''A'', ''C'']
       \<le> path_util (link_utilization loaded) [''A'', ''B'', ''C'']
   \<and> path_util (link_utilization loaded) [''A'', ''B'', ''C''] = 2"
proof -
  have d: "is_done (compute_paths loaded)" by code_simp
  have n: "''A'' \<in> set (nodes (topology loaded))" "''C'' \<in> set (nodes (topology loaded))"
    "''A'' \<noteq> ''C''" by code_simp+
  have pr: "(case map_of (traffic loaded) (''A'', ''C'') of None \<Rightarrow> 1 | Some ti \<Rightarrow> priority ti) \<noteq> 3"
    by code_simp
  have f: "flow_entry (state_of (compute_paths loaded)) ''A'' ''C'' = Some (Some [''A'', ''C''])"
    by code_simp
  have sp: "simple_path (topology loaded) ''A'' ''C'' [''A'', ''B'', ''C'']" by code_simp
  have u: "path_util (link_utilization loaded) [''A'', ''B'', ''C''] = 2" by code_simp
  from load_balanced_choice[OF is_done_state_of[OF d] n pr] sp f
  have "path_util (link_utilization loaded) [''A'', ''C'']
       \<le> path_util (link_utilization loaded) [''A'', ''B'', ''C'']"
    by (auto split: if_splits)
  with d f sp u show ?thesis by blast
qed

text \<open>
  C1. On a topology whose weights are not negative, for an ordered pair of different
  nodes whose traffic descriptor has the critical rank 3, a completed \<^verbatim>\<open>compute_paths\<close>
  installs a path exactly when a simple path exists. The installed path leads from the
  source to the destination along links of the topology, and its total weight is at most
  that of every simple path between the two nodes. The topology is a graph as
  \<^verbatim>\<open>nx.Graph\<close> keeps it: each node and each neighbour is stored once, and both
  directions of a link carry the same attributes. Every reachable state holds such a
  graph.
\<close>

theorem critical_path_minimal:
  assumes "wf_graph (topology s)" "nonneg (topology s)"
    and "compute_paths s = Done s'"
    and "src \<in> set (nodes (topology s))" "dst \<in> set (nodes (topology s))" "src \<noteq> dst"
    and "map_of (traffic s) (src, dst) = Some ti" "priority ti = 3"
  shows "if (\<exists>q. simple_path (topology s) src dst q)
         then (\<exists>p. flow_entry s' src dst = Some (Some p)
               \<and> walk (topology s) src dst p
               \<and> (\<forall>q. simple_path (topology s) src dst q \<longrightarrow>
                      path_weight (topology s) p \<le> path_weight (topology s) q))
         else flow_entry s' src dst = Some None"
proof -
  let ?G = "topology s"
  let ?ap = "all_simple_paths ?G src dst"
  note iff = all_simple_paths_iff[OF assms(4,5,6)]
  from compute_paths_settled[OF assms(3-6)] obtain entry bk where
    pl: "plan s src dst = Inr (entry, bk)" and fe: "flow_entry s' src dst = Some entry" by blast
  note pc = plan_critical[OF assms(7,8) pl]
  show ?thesis
  proof (cases "?ap = []")
    case True
    then have "\<not> (\<exists>q. simple_path ?G src dst q)" using iff by (metis empty_iff empty_set)
    moreover have "entry = None" using pc True by simp
    ultimately show ?thesis using fe by simp
  next
    case False
    then obtain q0 where "q0 \<in> set ?ap" by (cases ?ap) auto
    then have q0: "simple_path ?G src dst q0" using iff by simp
    then have w0: "walk ?G src dst q0" by (rule simple_path_walk)
    from shortest_path_correct[OF assms(1,2,4,5,6)] w0 obtain p where
      sp: "shortest_path ?G src dst = Inr p" and w: "walk ?G src dst p"
      and le: "\<forall>q. walk ?G src dst q \<longrightarrow> path_weight ?G p \<le> path_weight ?G q" by blast
    have "entry = Some p" using pc False sp by simp
    with fe have "flow_entry s' src dst = Some (Some p)" by simp
    moreover have "\<forall>q. simple_path ?G src dst q \<longrightarrow> path_weight ?G p \<le> path_weight ?G q"
      using le simple_path_walk by blast
    ultimately show ?thesis using q0 w by auto
  qed
qed

theorem critical_path_minimal_witness:
  "wf_graph (topology urgent) \<and> nonneg (topology urgent)
   \<and> is_done (compute_paths urgent)
   \<and> map_of (traffic urgent) (''A'', ''C'') = Some \<lparr>ttype = ''critical'', priority = 3\<rparr>
   \<and> flow_entry (state_of (compute_paths urgent)) ''A'' ''C'' = Some (Some [''A'', ''B'', ''C''])
   \<and> simple_path (topology urgent) ''A'' ''C'' [''A'', ''C'']
   \<and> path_weight (topology urgent) [''A'', ''B'', ''C'']
       \<le> path_weight (topology urgent) [''A'', ''C'']
   \<and> path_weight (topology urgent) [''A'', ''C''] = 5"
proof -
  have g: "wf_graph (topology urgent)" "nonneg (topology urgent)" by code_simp+
  have d: "is_done (compute_paths urgent)" by code_simp
  have n: "''A'' \<in> set (nodes (topology urgent))" "''C'' \<in> set (nodes (topology urgent))"
    "''A'' \<noteq> ''C''" by code_simp+
  have tr: "map_of (traffic urgent) (''A'', ''C'') = Some \<lparr>ttype = ''critical'', priority = 3\<rparr>"
    by code_simp
  have f: "flow_entry (state_of (compute_paths urgent)) ''A'' ''C'' = Some (Some [''A'', ''B'', ''C''])"
    by code_simp
  have sp: "simple_path (topology urgent) ''A'' ''C'' [''A'', ''C'']" by code_simp
  have u: "path_weight (topology urgent) [''A'', ''C''] = 5" by code_simp
  from critical_path_minimal[OF g is_done_state_of[OF d] n tr] sp f
  have "path_weight (topology urgent) [''A'', ''B'', ''C'']
       \<le> path_weight (topology urgent) [''A'', ''C'']"
    by (auto split: if_splits)
  with g d tr f sp u show ?thesis by blast
qed

end
